theory Spec2Isabelle
  imports Main "HOL-Library.Multiset" "HOL-Library.Word"
begin

section \<open>Go channels and schedules\<close>

text \<open>
  The toolkit is Go code built from goroutines and channels. A goroutine is modelled by
  its control point (the blocking operation it is at) and a program by a step function
  \<open>step a s\<close>: the scheduler's choice \<open>a\<close> names which goroutine moves, or which ready
  case of a \<^verbatim>\<open>select\<close> fires; \<open>None\<close> means that this move is not enabled in \<open>s\<close>
  (the goroutine is blocked there, or is elsewhere). A schedule is a list of choices.
\<close>

fun run :: "('a \<Rightarrow> 's \<Rightarrow> 's option) \<Rightarrow> 'a list \<Rightarrow> 's \<Rightarrow> 's option" where
  "run step [] s = Some s"
| "run step (a # as) s = (case step a s of None \<Rightarrow> None | Some s' \<Rightarrow> run step as s')"

text \<open>
  A buffered channel \<^verbatim>\<open>make(chan T, n)\<close>: the queued values, the capacity and whether
  \<^verbatim>\<open>close\<close> was called. The three outcomes of a channel operation: it proceeds, it
  blocks the goroutine, or it panics.
\<close>

record 'a chan =
  buf :: "'a list"
  cap :: nat
  closed :: bool

datatype 'r outcome = Proceeds 'r | Blocks | Panics

definition make_chan :: "nat \<Rightarrow> 'a chan" where
  "make_chan n = \<lparr>buf = [], cap = n, closed = False\<rparr>"

text \<open>\<^verbatim>\<open>ch <- v\<close>: panics on a closed channel, whatever the buffer holds.\<close>

definition chan_send :: "'a \<Rightarrow> 'a chan \<Rightarrow> 'a chan outcome" where
  "chan_send v c =
     (if closed c then Panics
      else if length (buf c) < cap c then Proceeds (c\<lparr>buf := buf c @ [v]\<rparr>)
      else Blocks)"

text \<open>\<^verbatim>\<open>select { case ch <- v: default: }\<close>: the send that never blocks.\<close>

definition chan_try_send :: "'a \<Rightarrow> 'a chan \<Rightarrow> (bool \<times> 'a chan) outcome" where
  "chan_try_send v c =
     (case chan_send v c of
        Proceeds c' \<Rightarrow> Proceeds (True, c')
      | Blocks \<Rightarrow> Proceeds (False, c)
      | Panics \<Rightarrow> Panics)"

text \<open>
  \<^verbatim>\<open>v, ok := <-ch\<close>: queued values are delivered first, also after \<^verbatim>\<open>close\<close>; a closed and
  drained channel yields \<open>None\<close> (\<^verbatim>\<open>ok == false\<close>, the end of a \<^verbatim>\<open>for range\<close>).
\<close>

definition chan_recv :: "'a chan \<Rightarrow> ('a option \<times> 'a chan) outcome" where
  "chan_recv c =
     (case buf c of
        v # vs \<Rightarrow> Proceeds (Some v, c\<lparr>buf := vs\<rparr>)
      | [] \<Rightarrow> if closed c then Proceeds (None, c) else Blocks)"

text \<open>\<^verbatim>\<open>close(ch)\<close>: panics on a channel that is closed already.\<close>

definition chan_close :: "'a chan \<Rightarrow> 'a chan outcome" where
  "chan_close c = (if closed c then Panics else Proceeds (c\<lparr>closed := True\<rparr>))"

section \<open>Token-bucket rate limiter\<close>

text \<open>
  \<^verbatim>\<open>RateLimiter\<close>: the token channel, the refill period, the \<^verbatim>\<open>stop\<close> channel (only ever
  closed, so a flag), the refill goroutine's control point, and the number of goroutines
  parked inside \<^verbatim>\<open>Wait()\<close>. A send on a channel with a parked receiver hands the value to
  that receiver directly; this is the only way a token passes when the capacity is 0.
\<close>

datatype refill_pc = RefillStarting | RefillTicking | RefillReturned

record RateLimiter =
  tokens :: "unit chan"
  rate :: int
  stop_closed :: bool
  refill :: refill_pc
  waiting :: nat
  rl_panicked :: bool

text \<open>The loop \<^verbatim>\<open>for i := 0; i < capacity; i++ { rl.tokens <- struct{}{} }\<close>.\<close>

fun fill_tokens :: "nat \<Rightarrow> unit chan \<Rightarrow> unit chan outcome" where
  "fill_tokens 0 c = Proceeds c"
| "fill_tokens (Suc n) c =
     (case chan_send () c of
        Proceeds c' \<Rightarrow> fill_tokens n c'
      | Blocks \<Rightarrow> Blocks
      | Panics \<Rightarrow> Panics)"

text \<open>
  \<^verbatim>\<open>NewRateLimiter(capacity, rate)\<close>. \<^verbatim>\<open>make\<close> panics on a negative size. The refill
  goroutine is spawned and has not run yet.
\<close>

definition NewRateLimiter :: "int \<Rightarrow> int \<Rightarrow> RateLimiter outcome" where
  "NewRateLimiter capacity r =
     (if capacity < 0 then Panics
      else case fill_tokens (nat capacity) (make_chan (nat capacity)) of
        Proceeds c \<Rightarrow>
          Proceeds \<lparr>tokens = c, rate = r, stop_closed = False, refill = RefillStarting,
                    waiting = 0, rl_panicked = False\<rparr>
      | Blocks \<Rightarrow> Blocks
      | Panics \<Rightarrow> Panics)"

text \<open>\<^verbatim>\<open>Allow()\<close>: \<^verbatim>\<open>select { case <-rl.tokens: return true; default: return false }\<close>.\<close>

definition Allow :: "RateLimiter \<Rightarrow> bool \<times> RateLimiter" where
  "Allow rl =
     (case chan_recv (tokens rl) of
        Proceeds (_, c) \<Rightarrow> (True, rl\<lparr>tokens := c\<rparr>)
      | Blocks \<Rightarrow> (False, rl)
      | Panics \<Rightarrow> (False, rl))"

text \<open>\<open>n\<close> consecutive calls of \<^verbatim>\<open>Allow()\<close>, with their results in order.\<close>

fun Allow_times :: "nat \<Rightarrow> RateLimiter \<Rightarrow> bool list \<times> RateLimiter" where
  "Allow_times 0 rl = ([], rl)"
| "Allow_times (Suc n) rl =
     (let (b, rl') = Allow rl; (bs, rl'') = Allow_times n rl' in (b # bs, rl''))"

text \<open>
  \<^verbatim>\<open>Wait()\<close> is the single receive \<^verbatim>\<open><-rl.tokens\<close>: it takes a token, or blocks. There is
  no other case to race it against.
\<close>

definition Wait :: "RateLimiter \<Rightarrow> RateLimiter outcome" where
  "Wait rl =
     (case chan_recv (tokens rl) of
        Proceeds (_, c) \<Rightarrow> Proceeds (rl\<lparr>tokens := c\<rparr>)
      | Blocks \<Rightarrow> Blocks
      | Panics \<Rightarrow> Panics)"

text \<open>
  The refill goroutine's \<^verbatim>\<open>case <-ticker.C\<close>: the inner \<^verbatim>\<open>select\<close> with \<^verbatim>\<open>default\<close>. A
  parked \<^verbatim>\<open>Wait()\<close> receives the token directly; otherwise the token is queued if there
  is room and dropped if the bucket is full.
\<close>

definition refill_tick :: "RateLimiter \<Rightarrow> RateLimiter" where
  "refill_tick rl =
     (if 0 < waiting rl then rl\<lparr>waiting := waiting rl - 1\<rparr>
      else case chan_try_send () (tokens rl) of
        Proceeds (_, c) \<Rightarrow> rl\<lparr>tokens := c\<rparr>
      | Blocks \<Rightarrow> rl
      | Panics \<Rightarrow> rl\<lparr>rl_panicked := True\<rparr>)"

text \<open>
  The scheduler's choices for a limiter in use: calls of \<^verbatim>\<open>Allow\<close>, \<^verbatim>\<open>Wait\<close> and \<^verbatim>\<open>Close\<close>
  by client goroutines, and the refill goroutine's steps. \<^verbatim>\<open>time.NewTicker\<close> panics on a
  period that is not positive; a panic ends the process. \<^verbatim>\<open>Close()\<close> is \<^verbatim>\<open>close(rl.stop)\<close>.
\<close>

datatype rl_action = RL_Allow | RL_Wait | RL_Close | RL_RefillStart | RL_Tick | RL_RefillStop

fun rl_step :: "rl_action \<Rightarrow> RateLimiter \<Rightarrow> RateLimiter option" where
  "rl_step a rl =
     (if rl_panicked rl then None
      else case a of
        RL_Allow \<Rightarrow> Some (snd (Allow rl))
      | RL_Wait \<Rightarrow>
          (case Wait rl of
             Proceeds rl' \<Rightarrow> Some rl'
           | Blocks \<Rightarrow> Some (rl\<lparr>waiting := waiting rl + 1\<rparr>)
           | Panics \<Rightarrow> Some (rl\<lparr>rl_panicked := True\<rparr>))
      | RL_Close \<Rightarrow>
          (if stop_closed rl then Some (rl\<lparr>rl_panicked := True\<rparr>)
           else Some (rl\<lparr>stop_closed := True\<rparr>))
      | RL_RefillStart \<Rightarrow>
          (if refill rl \<noteq> RefillStarting then None
           else if rate rl \<le> 0 then Some (rl\<lparr>rl_panicked := True\<rparr>)
           else Some (rl\<lparr>refill := RefillTicking\<rparr>))
      | RL_Tick \<Rightarrow>
          (if refill rl = RefillTicking then Some (refill_tick rl) else None)
      | RL_RefillStop \<Rightarrow>
          (if refill rl = RefillTicking \<and> stop_closed rl
           then Some (rl\<lparr>refill := RefillReturned\<rparr>) else None))"

text \<open>
  What every reachable limiter state satisfies, for a bucket of capacity \<open>n\<close>: the token
  channel keeps its capacity, holds at most \<open>n\<close> tokens and is never closed, and a
  goroutine is parked in \<^verbatim>\<open>Wait()\<close> only while the bucket is empty.
\<close>

definition rl_inv :: "nat \<Rightarrow> RateLimiter \<Rightarrow> bool" where
  "rl_inv n rl \<longleftrightarrow>
     cap (tokens rl) = n \<and> length (buf (tokens rl)) \<le> n \<and> \<not> closed (tokens rl)
     \<and> (0 < waiting rl \<longrightarrow> buf (tokens rl) = [])"

section \<open>Bounded worker pool\<close>

text \<open>
  A job is a Go \<^verbatim>\<open>func()\<close>. What matters to the pool is how the call \<^verbatim>\<open>job()\<close> ends: it
  returns, it panics, or it never returns. A job is the nil func, whose call panics, or
  a func named by a value of type \<open>'j\<close> together with the way its call ends (a func that
  returns has done its work without using the pool).
\<close>

datatype job_end = Job_returns | Job_panics | Job_hangs

datatype 'j job = Nil_func | Func 'j job_end

fun job_call :: "'j job \<Rightarrow> job_end" where
  "job_call Nil_func = Job_panics"
| "job_call (Func name e) = e"

text \<open>
  \<^verbatim>\<open>WorkerPool\<close>: the struct's fields \<^verbatim>\<open>workers\<close>, \<^verbatim>\<open>jobs\<close> and \<^verbatim>\<open>wg\<close> (the WaitGroup's
  counter), the control point of every worker goroutine, and the client goroutine that
  uses the pool: the calls it has not begun yet, and whether it is inside \<^verbatim>\<open>Close()\<close> at
  \<^verbatim>\<open>p.wg.Wait()\<close>. The jobs whose calls have returned are recorded in \<open>wp_completed\<close>.
\<close>

datatype 'j worker_pc = Ranging | Running 'j | Exited

datatype 'j pool_call = CallSubmit 'j | CallClose

datatype caller_pc = Ready | InWait

record 'j WorkerPool =
  wp_workers :: int
  wp_jobs :: "'j chan"
  wp_wg :: nat
  wp_pcs :: "'j worker_pc list"
  wp_script :: "'j pool_call list"
  wp_cpc :: caller_pc
  wp_completed :: "'j list"
  wp_panicked :: bool

text \<open>
  \<^verbatim>\<open>NewWorkerPool(workers)\<close> with \<^verbatim>\<open>start()\<close>: a queue of capacity 100, and for each
  \<^verbatim>\<open>i < workers\<close> one \<^verbatim>\<open>wg.Add(1)\<close> and one worker goroutine. The loop runs \<open>nat workers\<close>
  times: not at all when \<^verbatim>\<open>workers\<close> is zero or negative.
\<close>

definition NewWorkerPool :: "int \<Rightarrow> 'j pool_call list \<Rightarrow> 'j WorkerPool" where
  "NewWorkerPool workers calls =
     \<lparr>wp_workers = workers, wp_jobs = make_chan 100, wp_wg = nat workers,
      wp_pcs = replicate (nat workers) Ranging, wp_script = calls, wp_cpc = Ready,
      wp_completed = [], wp_panicked = False\<rparr>"

text \<open>\<^verbatim>\<open>Submit(job)\<close> is the single send \<^verbatim>\<open>p.jobs <- job\<close>.\<close>

definition Submit :: "'j \<Rightarrow> 'j WorkerPool \<Rightarrow> 'j WorkerPool outcome" where
  "Submit job p =
     (case chan_send job (wp_jobs p) of
        Proceeds c \<Rightarrow> Proceeds (p\<lparr>wp_jobs := c\<rparr>)
      | Blocks \<Rightarrow> Blocks
      | Panics \<Rightarrow> Panics)"

text \<open>\<^verbatim>\<open>Close()\<close> is \<^verbatim>\<open>close(p.jobs)\<close> followed by \<^verbatim>\<open>p.wg.Wait()\<close>.\<close>

definition Close_jobs :: "'j WorkerPool \<Rightarrow> 'j WorkerPool outcome" where
  "Close_jobs p =
     (case chan_close (wp_jobs p) of
        Proceeds c \<Rightarrow> Proceeds (p\<lparr>wp_jobs := c\<rparr>)
      | Blocks \<Rightarrow> Blocks
      | Panics \<Rightarrow> Panics)"

definition Close_wait :: "'j WorkerPool \<Rightarrow> 'j WorkerPool outcome" where
  "Close_wait p = (if wp_wg p = 0 then Proceeds p else Blocks)"

text \<open>
  The client goroutine makes its calls in order. A call that blocks leaves the client
  where it is (the step is not enabled); a panic ends the process.
\<close>

definition wp_caller :: "'j WorkerPool \<Rightarrow> 'j WorkerPool option" where
  "wp_caller p =
     (case wp_cpc p of
        InWait \<Rightarrow>
          (case Close_wait p of
             Proceeds p' \<Rightarrow> Some (p'\<lparr>wp_cpc := Ready\<rparr>)
           | Blocks \<Rightarrow> None
           | Panics \<Rightarrow> Some (p\<lparr>wp_panicked := True\<rparr>))
      | Ready \<Rightarrow>
          (case wp_script p of
             [] \<Rightarrow> None
           | CallSubmit job # rest \<Rightarrow>
               (case Submit job p of
                  Proceeds p' \<Rightarrow> Some (p'\<lparr>wp_script := rest\<rparr>)
                | Blocks \<Rightarrow> None
                | Panics \<Rightarrow> Some (p\<lparr>wp_panicked := True\<rparr>))
           | CallClose # rest \<Rightarrow>
               (case Close_jobs p of
                  Proceeds p' \<Rightarrow> Some (p'\<lparr>wp_script := rest, wp_cpc := InWait\<rparr>)
                | Blocks \<Rightarrow> None
                | Panics \<Rightarrow> Some (p\<lparr>wp_panicked := True\<rparr>))))"

text \<open>
  \<^verbatim>\<open>worker()\<close>: \<^verbatim>\<open>for job := range p.jobs { job() }\<close> with the deferred \<^verbatim>\<open>p.wg.Done()\<close>.
  \<^verbatim>\<open>Done\<close> on a counter that is zero panics. The call \<^verbatim>\<open>job()\<close> is made with no \<^verbatim>\<open>recover\<close>
  and no nil check: a panic inside it ends the process, and a call that never returns
  leaves the worker where it is.
\<close>

definition wp_worker :: "nat \<Rightarrow> 'j job WorkerPool \<Rightarrow> 'j job WorkerPool option" where
  "wp_worker i p =
     (if length (wp_pcs p) \<le> i then None
      else case wp_pcs p ! i of
        Ranging \<Rightarrow>
          (case chan_recv (wp_jobs p) of
             Proceeds (Some job, c) \<Rightarrow>
               Some (p\<lparr>wp_jobs := c, wp_pcs := (wp_pcs p)[i := Running job]\<rparr>)
           | Proceeds (None, c) \<Rightarrow>
               (if wp_wg p = 0 then Some (p\<lparr>wp_panicked := True\<rparr>)
                else Some (p\<lparr>wp_pcs := (wp_pcs p)[i := Exited], wp_wg := wp_wg p - 1\<rparr>))
           | Blocks \<Rightarrow> None
           | Panics \<Rightarrow> Some (p\<lparr>wp_panicked := True\<rparr>))
      | Running job \<Rightarrow>
          (case job_call job of
             Job_returns \<Rightarrow>
               Some (p\<lparr>wp_pcs := (wp_pcs p)[i := Ranging],
                        wp_completed := wp_completed p @ [job]\<rparr>)
           | Job_panics \<Rightarrow> Some (p\<lparr>wp_panicked := True\<rparr>)
           | Job_hangs \<Rightarrow> None)
      | Exited \<Rightarrow> None)"

datatype wp_action = WP_Caller | WP_Worker nat

definition wp_step :: "wp_action \<Rightarrow> 'j job WorkerPool \<Rightarrow> 'j job WorkerPool option" where
  "wp_step a p =
     (if wp_panicked p then None
      else case a of WP_Caller \<Rightarrow> wp_caller p | WP_Worker i \<Rightarrow> wp_worker i p)"

text \<open>\<^verbatim>\<open>Close()\<close> has returned and no call is left.\<close>

definition wp_returned :: "'j WorkerPool \<Rightarrow> bool" where
  "wp_returned p \<longleftrightarrow> wp_script p = [] \<and> wp_cpc p = Ready \<and> \<not> wp_panicked p"

text \<open>No goroutine of the pool system can move.\<close>

definition wp_stuck :: "'j job WorkerPool \<Rightarrow> bool" where
  "wp_stuck p \<longleftrightarrow> wp_step WP_Caller p = None \<and> (\<forall>i < length (wp_pcs p). wp_step (WP_Worker i) p = None)"

text \<open>
  The calls begun so far are a prefix of the client's calls, and the queue is closed once
  \<^verbatim>\<open>Close()\<close> is among them.
\<close>

definition wp_closed_inv :: "'j pool_call list \<Rightarrow> 'j WorkerPool \<Rightarrow> bool" where
  "wp_closed_inv calls p \<longleftrightarrow>
     (\<exists>made. calls = made @ wp_script p \<and> (CallClose \<in> set made \<longrightarrow> closed (wp_jobs p)))"

text \<open>
  Per worker: the job it is running, whether its goroutine is alive (counted by the
  WaitGroup), and how many steps it can still take on its own.
\<close>

fun running_job :: "'j worker_pc \<Rightarrow> 'j multiset" where
  "running_job (Running job) = {#job#}"
| "running_job _ = {#}"

fun worker_alive :: "'j worker_pc \<Rightarrow> nat" where
  "worker_alive Exited = 0"
| "worker_alive _ = 1"

fun worker_weight :: "'j worker_pc \<Rightarrow> nat" where
  "worker_weight Exited = 0"
| "worker_weight Ranging = 1"
| "worker_weight (Running job) = 2"

text \<open>
  What every reachable state satisfies when the client's calls are \<^verbatim>\<open>Submit\<close> for each job
  of \<open>js\<close> and then \<^verbatim>\<open>Close()\<close>, for a pool of \<open>W\<close> workers and jobs whose calls all
  return: nothing has panicked; the queue
  holds at most 100 jobs; the WaitGroup counts the workers that have not returned; a
  worker has returned only if the queue is closed and empty; the queue is closed
  exactly when \<^verbatim>\<open>Close()\<close> has begun, after all submissions; and every job of \<open>js\<close> is in
  exactly one place: not yet submitted, queued, running, or completed.
\<close>

definition wp_inv :: "nat \<Rightarrow> 'j list \<Rightarrow> 'j WorkerPool \<Rightarrow> bool" where
  "wp_inv W js p \<longleftrightarrow>
     \<not> wp_panicked p \<and> cap (wp_jobs p) = 100 \<and> length (buf (wp_jobs p)) \<le> 100
     \<and> length (wp_pcs p) = W
     \<and> wp_wg p = sum_list (map worker_alive (wp_pcs p))
     \<and> (Exited \<in> set (wp_pcs p) \<longrightarrow> closed (wp_jobs p) \<and> buf (wp_jobs p) = [])
     \<and> (\<exists>rest.
          (wp_script p = map CallSubmit rest @ [CallClose] \<and> wp_cpc p = Ready
             \<and> \<not> closed (wp_jobs p)
           \<or> wp_script p = [] \<and> rest = [] \<and> closed (wp_jobs p)
             \<and> (wp_cpc p = Ready \<longrightarrow> wp_wg p = 0))
          \<and> mset js
              = mset (wp_completed p) + sum_list (map running_job (wp_pcs p))
                + mset (buf (wp_jobs p)) + mset rest)"

fun call_weight :: "'j pool_call \<Rightarrow> nat" where
  "call_weight (CallSubmit job) = 3"
| "call_weight CallClose = 2"

definition wp_measure :: "'j WorkerPool \<Rightarrow> nat" where
  "wp_measure p =
     sum_list (map call_weight (wp_script p))
     + (case wp_cpc p of InWait \<Rightarrow> 1 | Ready \<Rightarrow> 0)
     + 2 * length (buf (wp_jobs p)) + sum_list (map worker_weight (wp_pcs p))
     + (if wp_panicked p then 0 else 1)"

section \<open>Broadcaster\<close>

text \<open>
  \<^verbatim>\<open>Broadcaster[T]\<close>: the subscriber channels in subscription order, the input channel, the
  context (\<open>bc_done\<close>: \<^verbatim>\<open>cancel()\<close> was called, so \<^verbatim>\<open>ctx.Done()\<close> is closed) and the control
  point of the goroutine \<^verbatim>\<open>run()\<close>. The mutex only makes \<^verbatim>\<open>Subscribe\<close>, \<^verbatim>\<open>broadcast\<close> and
  \<^verbatim>\<open>closeAll\<close> exclude one another; each of them is one step here.
\<close>

datatype run_pc = Dispatching | Returned

record 'a Broadcaster =
  bc_subscribers :: "'a chan list"
  bc_input :: "'a chan"
  bc_done :: bool
  bc_run :: run_pc
  bc_panicked :: bool

definition NewBroadcaster :: "'a Broadcaster" where
  "NewBroadcaster =
     \<lparr>bc_subscribers = [], bc_input = make_chan 10, bc_done = False, bc_run = Dispatching,
      bc_panicked = False\<rparr>"

text \<open>
  \<^verbatim>\<open>broadcast(val)\<close>: for every subscriber in order,
  \<^verbatim>\<open>select { case ch <- val: default: }\<close>.
\<close>

fun broadcast :: "'a \<Rightarrow> 'a chan list \<Rightarrow> 'a chan list outcome" where
  "broadcast val [] = Proceeds []"
| "broadcast val (ch # chs) =
     (case chan_try_send val ch of
        Proceeds (_, ch') \<Rightarrow>
          (case broadcast val chs of
             Proceeds chs' \<Rightarrow> Proceeds (ch' # chs')
           | Blocks \<Rightarrow> Blocks
           | Panics \<Rightarrow> Panics)
      | Blocks \<Rightarrow> Blocks
      | Panics \<Rightarrow> Panics)"

text \<open>\<^verbatim>\<open>closeAll()\<close>: \<^verbatim>\<open>close(ch)\<close> for every subscriber in order.\<close>

fun closeAll :: "'a chan list \<Rightarrow> 'a chan list outcome" where
  "closeAll [] = Proceeds []"
| "closeAll (ch # chs) =
     (case chan_close ch of
        Proceeds ch' \<Rightarrow>
          (case closeAll chs of
             Proceeds chs' \<Rightarrow> Proceeds (ch' # chs')
           | Blocks \<Rightarrow> Blocks
           | Panics \<Rightarrow> Panics)
      | Blocks \<Rightarrow> Blocks
      | Panics \<Rightarrow> Panics)"

text \<open>
  \<^verbatim>\<open>Send(val)\<close> is \<^verbatim>\<open>select { case b.input <- val: case <-b.ctx.Done(): }\<close>, a \<^verbatim>\<open>select\<close>
  without \<^verbatim>\<open>default\<close>. Each case is given with its result when it is ready; the call
  blocks while neither is.
\<close>

definition Send_input :: "'a \<Rightarrow> 'a Broadcaster \<Rightarrow> 'a Broadcaster option" where
  "Send_input val b =
     (case chan_send val (bc_input b) of
        Proceeds c \<Rightarrow> Some (b\<lparr>bc_input := c\<rparr>)
      | Blocks \<Rightarrow> None
      | Panics \<Rightarrow> Some (b\<lparr>bc_panicked := True\<rparr>))"

definition Send_done :: "'a \<Rightarrow> 'a Broadcaster \<Rightarrow> 'a Broadcaster option" where
  "Send_done val b = (if bc_done b then Some b else None)"

definition Send_blocks :: "'a \<Rightarrow> 'a Broadcaster \<Rightarrow> bool" where
  "Send_blocks val b \<longleftrightarrow> Send_input val b = None \<and> Send_done val b = None"

text \<open>
  One turn of the loop in \<^verbatim>\<open>run()\<close>, a \<^verbatim>\<open>select\<close> of two cases:
  \<^verbatim>\<open>case <-b.ctx.Done(): b.closeAll(); return\<close> and
  \<^verbatim>\<open>case val := <-b.input: b.broadcast(val)\<close>. The input channel is never closed.
\<close>

definition run_done :: "'a Broadcaster \<Rightarrow> 'a Broadcaster option" where
  "run_done b =
     (if bc_run b = Dispatching \<and> bc_done b then
        (case closeAll (bc_subscribers b) of
           Proceeds chs \<Rightarrow> Some (b\<lparr>bc_subscribers := chs, bc_run := Returned\<rparr>)
         | Blocks \<Rightarrow> None
         | Panics \<Rightarrow> Some (b\<lparr>bc_panicked := True\<rparr>))
      else None)"

definition run_input :: "'a Broadcaster \<Rightarrow> 'a Broadcaster option" where
  "run_input b =
     (if bc_run b = Dispatching then
        (case chan_recv (bc_input b) of
           Proceeds (Some val, c) \<Rightarrow>
             (case broadcast val (bc_subscribers b) of
                Proceeds chs \<Rightarrow> Some (b\<lparr>bc_subscribers := chs, bc_input := c\<rparr>)
              | Blocks \<Rightarrow> None
              | Panics \<Rightarrow> Some (b\<lparr>bc_panicked := True\<rparr>))
         | Proceeds (None, c) \<Rightarrow> None
         | Blocks \<Rightarrow> None
         | Panics \<Rightarrow> Some (b\<lparr>bc_panicked := True\<rparr>))
      else None)"

text \<open>\<^verbatim>\<open>Subscribe()\<close> appends a channel of capacity 10; \<^verbatim>\<open>Close()\<close> calls \<^verbatim>\<open>cancel()\<close>.\<close>

definition Subscribe :: "'a Broadcaster \<Rightarrow> 'a Broadcaster" where
  "Subscribe b = b\<lparr>bc_subscribers := bc_subscribers b @ [make_chan 10]\<rparr>"

definition Close :: "'a Broadcaster \<Rightarrow> 'a Broadcaster" where
  "Close b = b\<lparr>bc_done := True\<rparr>"

text \<open>The reader of subscription \<open>i\<close> takes the next value from its channel.\<close>

definition consume :: "nat \<Rightarrow> 'a Broadcaster \<Rightarrow> 'a Broadcaster option" where
  "consume i b =
     (if length (bc_subscribers b) \<le> i then None
      else case chan_recv (bc_subscribers b ! i) of
        Proceeds (Some val, c) \<Rightarrow> Some (b\<lparr>bc_subscribers := (bc_subscribers b)[i := c]\<rparr>)
      | Proceeds (None, c) \<Rightarrow> None
      | Blocks \<Rightarrow> None
      | Panics \<Rightarrow> None)"

datatype 'a bc_action =
  BC_Send_input 'a | BC_Send_done 'a | BC_run_input | BC_run_done | BC_Subscribe | BC_Close
  | BC_consume nat

definition bc_step :: "'a bc_action \<Rightarrow> 'a Broadcaster \<Rightarrow> 'a Broadcaster option" where
  "bc_step a b =
     (if bc_panicked b then None
      else case a of
        BC_Send_input val \<Rightarrow> Send_input val b
      | BC_Send_done val \<Rightarrow> Send_done val b
      | BC_run_input \<Rightarrow> run_input b
      | BC_run_done \<Rightarrow> run_done b
      | BC_Subscribe \<Rightarrow> Some (Subscribe b)
      | BC_Close \<Rightarrow> Some (Close b)
      | BC_consume i \<Rightarrow> consume i b)"

text \<open>
  What every reachable broadcaster state satisfies: nothing has panicked; the input
  channel is open, of capacity 10 and within it; every subscriber channel has capacity
  10 and is within it; while \<^verbatim>\<open>run()\<close> has not returned no subscriber channel is closed;
  and \<^verbatim>\<open>run()\<close> returns only after \<^verbatim>\<open>cancel()\<close>.
\<close>

definition bc_inv :: "'a Broadcaster \<Rightarrow> bool" where
  "bc_inv b \<longleftrightarrow>
     \<not> bc_panicked b \<and> \<not> closed (bc_input b) \<and> cap (bc_input b) = 10
     \<and> length (buf (bc_input b)) \<le> 10
     \<and> (\<forall>ch \<in> set (bc_subscribers b). cap ch = 10 \<and> length (buf ch) \<le> 10)
     \<and> (bc_run b = Dispatching \<longrightarrow> (\<forall>ch \<in> set (bc_subscribers b). \<not> closed ch))
     \<and> (bc_run b = Returned \<longrightarrow> bc_done b)"

text \<open>What the non-blocking send does to one open subscriber channel.\<close>

definition offer :: "'a \<Rightarrow> 'a chan \<Rightarrow> 'a chan" where
  "offer val ch = (if length (buf ch) < cap ch then ch\<lparr>buf := buf ch @ [val]\<rparr> else ch)"

section \<open>Generator, pipeline stage and a consumer\<close>

text \<open>
  Go's \<^verbatim>\<open>int\<close> is taken as the 64-bit machine integer, so the arithmetic of the stages
  wraps around. The transforms of the three stage functions of the repository:
  \<^verbatim>\<open>item * 2\<close> in \<^verbatim>\<open>SafePipeline\<close>, \<^verbatim>\<open>n * n\<close> in \<^verbatim>\<open>Square\<close> and \<^verbatim>\<open>val * val\<close> in \<^verbatim>\<open>worker\<close>.
\<close>

type_synonym go_int = "64 word"

definition SafePipeline_f :: "go_int \<Rightarrow> go_int" where
  "SafePipeline_f item = item * 2"

definition Square_f :: "go_int \<Rightarrow> go_int" where
  "Square_f n = n * n"

text \<open>
  The program \<^verbatim>\<open>for val := range SafePipeline(ctx, Generator(ctx, values...)) { collect val }\<close>:
  three goroutines joined by two unbuffered channels. On an unbuffered channel a send
  and a receive happen together, as one step of both goroutines. A deferred
  \<^verbatim>\<open>close\<close> runs when its goroutine returns, so a channel is closed exactly when the
  goroutine that owns it has returned.

  \<^item> \<^verbatim>\<open>Generator\<close>: \<open>pl_values\<close> are the values not yet sent; while there is one, the
    goroutine is at its \<^verbatim>\<open>select\<close> between \<^verbatim>\<open>ctx.Done()\<close> and the send of the first.
    \<open>pl_ch_closed\<close>: it has returned.
  \<^item> The stage (\<^verbatim>\<open>SafePipeline\<close>, \<^verbatim>\<open>Square\<close> or \<^verbatim>\<open>worker\<close>, which differ in the transform
    \<open>f\<close> only): at \<^verbatim>\<open>range input\<close>, at the \<^verbatim>\<open>select\<close> between \<^verbatim>\<open>ctx.Done()\<close> and the send of
    \<open>f item\<close>, or returned.
  \<^item> The consumer ranges over the stage's output and appends what it receives to
    \<open>pl_collected\<close>; \<open>pl_finished\<close>: its loop has ended.
\<close>

datatype 'a stage_pc = StageRanging | StageSelect 'a | StageReturned

record 'a pipeline =
  pl_done :: bool
  pl_values :: "'a list"
  pl_ch_closed :: bool
  pl_stage :: "'a stage_pc"
  pl_collected :: "'a list"
  pl_finished :: bool

definition pl_init :: "'a list \<Rightarrow> 'a pipeline" where
  "pl_init values =
     \<lparr>pl_done = False, pl_values = values, pl_ch_closed = False, pl_stage = StageRanging,
      pl_collected = [], pl_finished = False\<rparr>"

text \<open>
  The scheduler's choices: the context is cancelled; the generator sends its next value
  to the stage; the generator takes \<^verbatim>\<open>case <-ctx.Done()\<close>; the generator's loop is over;
  the stage takes \<^verbatim>\<open>case <-ctx.Done()\<close>; the stage sends to the consumer; the stage's
  \<^verbatim>\<open>range\<close> finds its input closed; the consumer's \<^verbatim>\<open>range\<close> finds the output closed.
\<close>

datatype pl_action =
  PL_Cancel | PL_Gen_send | PL_Gen_done | PL_Gen_return
  | PL_Stage_done | PL_Stage_send | PL_Stage_return | PL_Consumer_end

fun pl_step :: "('a \<Rightarrow> 'a) \<Rightarrow> pl_action \<Rightarrow> 'a pipeline \<Rightarrow> 'a pipeline option" where
  "pl_step f PL_Cancel s = (if pl_done s then None else Some (s\<lparr>pl_done := True\<rparr>))"
| "pl_step f PL_Gen_send s =
     (case pl_values s of
        [] \<Rightarrow> None
      | v # vs \<Rightarrow>
          if \<not> pl_ch_closed s \<and> pl_stage s = StageRanging
          then Some (s\<lparr>pl_values := vs, pl_stage := StageSelect v\<rparr>) else None)"
| "pl_step f PL_Gen_done s =
     (if pl_values s \<noteq> [] \<and> \<not> pl_ch_closed s \<and> pl_done s
      then Some (s\<lparr>pl_ch_closed := True\<rparr>) else None)"
| "pl_step f PL_Gen_return s =
     (if pl_values s = [] \<and> \<not> pl_ch_closed s
      then Some (s\<lparr>pl_ch_closed := True\<rparr>) else None)"
| "pl_step f PL_Stage_done s =
     (case pl_stage s of
        StageSelect item \<Rightarrow> if pl_done s then Some (s\<lparr>pl_stage := StageReturned\<rparr>) else None
      | _ \<Rightarrow> None)"
| "pl_step f PL_Stage_send s =
     (case pl_stage s of
        StageSelect item \<Rightarrow>
          if \<not> pl_finished s
          then Some (s\<lparr>pl_stage := StageRanging, pl_collected := pl_collected s @ [f item]\<rparr>)
          else None
      | _ \<Rightarrow> None)"
| "pl_step f PL_Stage_return s =
     (if pl_stage s = StageRanging \<and> pl_ch_closed s
      then Some (s\<lparr>pl_stage := StageReturned\<rparr>) else None)"
| "pl_step f PL_Consumer_end s =
     (if pl_stage s = StageReturned \<and> \<not> pl_finished s
      then Some (s\<lparr>pl_finished := True\<rparr>) else None)"

text \<open>No goroutine of the pipeline can move (cancelling the context is not its move).\<close>

definition pl_stuck :: "('a \<Rightarrow> 'a) \<Rightarrow> 'a pipeline \<Rightarrow> bool" where
  "pl_stuck f s \<longleftrightarrow>
     list_all (\<lambda>a. pl_step f a s = None)
       [PL_Gen_send, PL_Gen_done, PL_Gen_return, PL_Stage_done, PL_Stage_send,
        PL_Stage_return, PL_Consumer_end]"

text \<open>Every goroutine of the pipeline has returned.\<close>

definition pl_all_returned :: "'a pipeline \<Rightarrow> bool" where
  "pl_all_returned s \<longleftrightarrow> pl_ch_closed s \<and> pl_stage s = StageReturned \<and> pl_finished s"

text \<open>The item the stage holds, if any.\<close>

fun stage_item :: "'a stage_pc \<Rightarrow> 'a list" where
  "stage_item (StageSelect item) = [item]"
| "stage_item _ = []"

text \<open>
  Facts about the control points that hold in every reachable state, cancelled or not:
  the consumer's loop ends only after the stage has returned, and the stage returns only
  after the generator has, or after cancellation.
\<close>

definition pl_ctl_inv :: "'a pipeline \<Rightarrow> bool" where
  "pl_ctl_inv s \<longleftrightarrow>
     (pl_finished s \<longrightarrow> pl_stage s = StageReturned)
     \<and> (pl_stage s = StageReturned \<longrightarrow> pl_ch_closed s \<or> pl_done s)"

text \<open>
  While the context is not cancelled: the input splits into the values already collected
  (transformed), the item the stage holds and the values not yet sent; and the
  generator returns only when it has sent everything.
\<close>

definition pl_data_inv :: "('a \<Rightarrow> 'a) \<Rightarrow> 'a list \<Rightarrow> 'a pipeline \<Rightarrow> bool" where
  "pl_data_inv f values s \<longleftrightarrow>
     \<not> pl_done s
     \<and> (\<exists>sent. values = sent @ stage_item (pl_stage s) @ pl_values s
            \<and> pl_collected s = map f sent)
     \<and> (pl_ch_closed s \<longrightarrow> pl_values s = [])
     \<and> (pl_stage s = StageReturned \<longrightarrow> pl_ch_closed s)"

text \<open>The number of steps the pipeline can still take.\<close>

definition pl_measure :: "'a pipeline \<Rightarrow> nat" where
  "pl_measure s =
     2 * length (pl_values s)
     + (case pl_stage s of StageRanging \<Rightarrow> 1 | StageSelect item \<Rightarrow> 2 | StageReturned \<Rightarrow> 0)
     + (if pl_ch_closed s then 0 else 1) + (if pl_finished s then 0 else 1)
     + (if pl_done s then 0 else 1)"

section \<open>Tee\<close>

text \<open>
  The program \<^verbatim>\<open>out1, out2 := Tee(ctx, Generator(ctx, values...))\<close> with one ranging
  consumer on each output. The goroutine of \<^verbatim>\<open>Tee\<close> is at \<^verbatim>\<open>range input\<close>, at the first
  \<^verbatim>\<open>select\<close> (send to \<^verbatim>\<open>ch1\<close>), at the second (send to \<^verbatim>\<open>ch2\<close>), or in its deferred calls,
  which run last-in first-out: \<^verbatim>\<open>close(ch2)\<close> and then \<^verbatim>\<open>close(ch1)\<close>. \<open>te_closes1\<close> and
  \<open>te_closes2\<close> count the executions of \<^verbatim>\<open>close(ch1)\<close> and \<^verbatim>\<open>close(ch2)\<close>; a second
  execution would be a panic. \<open>te_out1\<close> and \<open>te_out2\<close> are what the two consumers have
  received, \<open>te_fin1\<close> and \<open>te_fin2\<close> that their loops have ended.
\<close>

datatype 'a tee_pc =
  TeeRanging | TeeSelect1 'a | TeeSelect2 'a | TeeClosing2 | TeeClosing1 | TeeReturned

record 'a tee =
  te_done :: bool
  te_values :: "'a list"
  te_in_closed :: bool
  te_pc :: "'a tee_pc"
  te_closes1 :: nat
  te_closes2 :: nat
  te_out1 :: "'a list"
  te_out2 :: "'a list"
  te_fin1 :: bool
  te_fin2 :: bool

definition te_init :: "'a list \<Rightarrow> 'a tee" where
  "te_init values =
     \<lparr>te_done = False, te_values = values, te_in_closed = False, te_pc = TeeRanging,
      te_closes1 = 0, te_closes2 = 0, te_out1 = [], te_out2 = [], te_fin1 = False,
      te_fin2 = False\<rparr>"

datatype te_action =
  TE_Cancel | TE_Gen_send | TE_Gen_done | TE_Gen_return
  | TE_Tee_done1 | TE_Tee_send1 | TE_Tee_done2 | TE_Tee_send2 | TE_Tee_input_closed
  | TE_Tee_close2 | TE_Tee_close1 | TE_Consumer1_end | TE_Consumer2_end

fun te_step :: "te_action \<Rightarrow> 'a tee \<Rightarrow> 'a tee option" where
  "te_step TE_Cancel s = (if te_done s then None else Some (s\<lparr>te_done := True\<rparr>))"
| "te_step TE_Gen_send s =
     (case te_values s of
        [] \<Rightarrow> None
      | v # vs \<Rightarrow>
          if \<not> te_in_closed s \<and> te_pc s = TeeRanging
          then Some (s\<lparr>te_values := vs, te_pc := TeeSelect1 v\<rparr>) else None)"
| "te_step TE_Gen_done s =
     (if te_values s \<noteq> [] \<and> \<not> te_in_closed s \<and> te_done s
      then Some (s\<lparr>te_in_closed := True\<rparr>) else None)"
| "te_step TE_Gen_return s =
     (if te_values s = [] \<and> \<not> te_in_closed s
      then Some (s\<lparr>te_in_closed := True\<rparr>) else None)"
| "te_step TE_Tee_done1 s =
     (case te_pc s of
        TeeSelect1 val \<Rightarrow> if te_done s then Some (s\<lparr>te_pc := TeeClosing2\<rparr>) else None
      | _ \<Rightarrow> None)"
| "te_step TE_Tee_send1 s =
     (case te_pc s of
        TeeSelect1 val \<Rightarrow>
          if \<not> te_fin1 s
          then Some (s\<lparr>te_pc := TeeSelect2 val, te_out1 := te_out1 s @ [val]\<rparr>) else None
      | _ \<Rightarrow> None)"
| "te_step TE_Tee_done2 s =
     (case te_pc s of
        TeeSelect2 val \<Rightarrow> if te_done s then Some (s\<lparr>te_pc := TeeClosing2\<rparr>) else None
      | _ \<Rightarrow> None)"
| "te_step TE_Tee_send2 s =
     (case te_pc s of
        TeeSelect2 val \<Rightarrow>
          if \<not> te_fin2 s
          then Some (s\<lparr>te_pc := TeeRanging, te_out2 := te_out2 s @ [val]\<rparr>) else None
      | _ \<Rightarrow> None)"
| "te_step TE_Tee_input_closed s =
     (if te_pc s = TeeRanging \<and> te_in_closed s
      then Some (s\<lparr>te_pc := TeeClosing2\<rparr>) else None)"
| "te_step TE_Tee_close2 s =
     (if te_pc s = TeeClosing2
      then Some (s\<lparr>te_pc := TeeClosing1, te_closes2 := te_closes2 s + 1\<rparr>) else None)"
| "te_step TE_Tee_close1 s =
     (if te_pc s = TeeClosing1
      then Some (s\<lparr>te_pc := TeeReturned, te_closes1 := te_closes1 s + 1\<rparr>) else None)"
| "te_step TE_Consumer1_end s =
     (if 0 < te_closes1 s \<and> \<not> te_fin1 s then Some (s\<lparr>te_fin1 := True\<rparr>) else None)"
| "te_step TE_Consumer2_end s =
     (if 0 < te_closes2 s \<and> \<not> te_fin2 s then Some (s\<lparr>te_fin2 := True\<rparr>) else None)"

definition te_stuck :: "'a tee \<Rightarrow> bool" where
  "te_stuck s \<longleftrightarrow>
     list_all (\<lambda>a. te_step a s = None)
       [TE_Gen_send, TE_Gen_done, TE_Gen_return, TE_Tee_done1, TE_Tee_send1, TE_Tee_done2,
        TE_Tee_send2, TE_Tee_input_closed, TE_Tee_close2, TE_Tee_close1, TE_Consumer1_end,
        TE_Consumer2_end]"

definition te_all_returned :: "'a tee \<Rightarrow> bool" where
  "te_all_returned s \<longleftrightarrow>
     te_in_closed s \<and> te_pc s = TeeReturned \<and> te_fin1 s \<and> te_fin2 s"

text \<open>The value \<^verbatim>\<open>Tee\<close> holds, and whether it has handed it to the first output already.\<close>

fun tee_item :: "'a tee_pc \<Rightarrow> 'a list" where
  "tee_item (TeeSelect1 val) = [val]"
| "tee_item (TeeSelect2 val) = [val]"
| "tee_item _ = []"

fun tee_given1 :: "'a tee_pc \<Rightarrow> 'a list" where
  "tee_given1 (TeeSelect2 val) = [val]"
| "tee_given1 _ = []"

fun tee_leaving :: "'a tee_pc \<Rightarrow> bool" where
  "tee_leaving TeeClosing2 = True"
| "tee_leaving TeeClosing1 = True"
| "tee_leaving TeeReturned = True"
| "tee_leaving _ = False"

text \<open>
  Facts about the control points in every reachable state, cancelled or not: the two
  closes are counted by the control point of \<^verbatim>\<open>Tee\<close>, a consumer's loop ends only on a
  closed output, and \<^verbatim>\<open>Tee\<close> leaves its loop only on a closed input or after cancellation.
\<close>

definition te_ctl_inv :: "'a tee \<Rightarrow> bool" where
  "te_ctl_inv s \<longleftrightarrow>
     te_closes2 s = (if te_pc s = TeeClosing1 \<or> te_pc s = TeeReturned then 1 else 0)
     \<and> te_closes1 s = (if te_pc s = TeeReturned then 1 else 0)
     \<and> (te_fin1 s \<longrightarrow> 0 < te_closes1 s) \<and> (te_fin2 s \<longrightarrow> 0 < te_closes2 s)
     \<and> (tee_leaving (te_pc s) \<longrightarrow> te_in_closed s \<or> te_done s)"

text \<open>
  While the context is not cancelled: the input splits into what the second consumer
  has, the value \<^verbatim>\<open>Tee\<close> holds and the values not yet sent; the first consumer is ahead by
  the held value once it was given to it; the generator returns only when it has sent
  everything, and \<^verbatim>\<open>Tee\<close> leaves its loop only after that.
\<close>

definition te_data_inv :: "'a list \<Rightarrow> 'a tee \<Rightarrow> bool" where
  "te_data_inv values s \<longleftrightarrow>
     \<not> te_done s
     \<and> values = te_out2 s @ tee_item (te_pc s) @ te_values s
     \<and> te_out1 s = te_out2 s @ tee_given1 (te_pc s)
     \<and> (te_in_closed s \<longrightarrow> te_values s = [])
     \<and> (tee_leaving (te_pc s) \<longrightarrow> te_in_closed s)"

definition te_measure :: "'a tee \<Rightarrow> nat" where
  "te_measure s =
     3 * length (te_values s)
     + (case te_pc s of
          TeeRanging \<Rightarrow> 3 | TeeSelect1 val \<Rightarrow> 5 | TeeSelect2 val \<Rightarrow> 4
        | TeeClosing2 \<Rightarrow> 2 | TeeClosing1 \<Rightarrow> 1 | TeeReturned \<Rightarrow> 0)
     + (if te_in_closed s then 0 else 1) + (if te_fin1 s then 0 else 1)
     + (if te_fin2 s then 0 else 1) + (if te_done s then 0 else 1)"

section \<open>Fan-out and fan-in\<close>

text \<open>
  The program \<^verbatim>\<open>for val := range FanOutFanIn(ctx, Generator(ctx, values...), workers)\<close>
  \<^verbatim>\<open>{ collect val }\<close>. \<^verbatim>\<open>FanOutFanIn\<close> starts \<^verbatim>\<open>workers\<close> goroutines \<^verbatim>\<open>worker\<close>, all ranging over
  the one input, each with an output channel of its own; \<^verbatim>\<open>merge\<close> starts one forwarding
  goroutine per worker channel, all sending to the one merged output, after
  \<^verbatim>\<open>wg.Add(1)\<close> for each, and one goroutine that waits for the WaitGroup and closes the
  merged output.

  A worker and a forwarder have the control points of a pipeline stage: a worker holds
  the value it received and sends the transformed value (\<^verbatim>\<open>val * val\<close> in the source, \<open>f\<close>
  here); a forwarder holds what it received from its worker. \<open>fa_wg\<close> is the
  WaitGroup's counter. \<^verbatim>\<open>make([]<-chan int, workers)\<close> panics when \<^verbatim>\<open>workers\<close> is negative.
  The line a worker prints after each send is left out.
\<close>

record 'a fan =
  fa_done :: bool
  fa_values :: "'a list"
  fa_in_closed :: bool
  fa_workers :: "'a stage_pc list"
  fa_forwarders :: "'a stage_pc list"
  fa_wg :: nat
  fa_out_closed :: bool
  fa_collected :: "'a list"
  fa_finished :: bool
  fa_panicked :: bool

definition FanOutFanIn :: "'a list \<Rightarrow> int \<Rightarrow> 'a fan outcome" where
  "FanOutFanIn values workers =
     (if workers < 0 then Panics
      else Proceeds
        \<lparr>fa_done = False, fa_values = values, fa_in_closed = False,
         fa_workers = replicate (nat workers) StageRanging,
         fa_forwarders = replicate (nat workers) StageRanging,
         fa_wg = nat workers, fa_out_closed = False, fa_collected = [], fa_finished = False,
         fa_panicked = False\<rparr>)"

text \<open>
  The scheduler's choices. \<open>FA_Gen_send i\<close>: the generator's send is received by worker
  \<open>i\<close> (any worker at \<^verbatim>\<open>range input\<close> may be the one). \<open>FA_Worker_send i\<close>: worker \<open>i\<close> hands
  its result to forwarder \<open>i\<close>. \<open>FA_Fwd_send i\<close>: forwarder \<open>i\<close> hands its value to the
  consumer; a send on the merged output after it was closed would panic.
  \<open>FA_Fwd_return i\<close> and \<open>FA_Fwd_done i\<close> run the deferred \<^verbatim>\<open>wg.Done()\<close>, which panics on a
  zero counter. \<open>FA_Close_output\<close>: \<^verbatim>\<open>wg.Wait()\<close> returns and the output is closed.
\<close>

datatype fa_action =
  FA_Cancel | FA_Gen_send nat | FA_Gen_done | FA_Gen_return
  | FA_Worker_done nat | FA_Worker_send nat | FA_Worker_return nat
  | FA_Fwd_done nat | FA_Fwd_send nat | FA_Fwd_return nat
  | FA_Close_output | FA_Consumer_end

definition wg_Done :: "'a fan \<Rightarrow> 'a fan" where
  "wg_Done s = (if fa_wg s = 0 then s\<lparr>fa_panicked := True\<rparr> else s\<lparr>fa_wg := fa_wg s - 1\<rparr>)"

fun fa_move :: "('a \<Rightarrow> 'a) \<Rightarrow> fa_action \<Rightarrow> 'a fan \<Rightarrow> 'a fan option" where
  "fa_move f FA_Cancel s = (if fa_done s then None else Some (s\<lparr>fa_done := True\<rparr>))"
| "fa_move f (FA_Gen_send i) s =
     (case fa_values s of
        [] \<Rightarrow> None
      | v # vs \<Rightarrow>
          if \<not> fa_in_closed s \<and> i < length (fa_workers s) \<and> fa_workers s ! i = StageRanging
          then Some (s\<lparr>fa_values := vs, fa_workers := (fa_workers s)[i := StageSelect v]\<rparr>)
          else None)"
| "fa_move f FA_Gen_done s =
     (if fa_values s \<noteq> [] \<and> \<not> fa_in_closed s \<and> fa_done s
      then Some (s\<lparr>fa_in_closed := True\<rparr>) else None)"
| "fa_move f FA_Gen_return s =
     (if fa_values s = [] \<and> \<not> fa_in_closed s
      then Some (s\<lparr>fa_in_closed := True\<rparr>) else None)"
| "fa_move f (FA_Worker_done i) s =
     (if i < length (fa_workers s) \<and> fa_done s then
        (case fa_workers s ! i of
           StageSelect val \<Rightarrow> Some (s\<lparr>fa_workers := (fa_workers s)[i := StageReturned]\<rparr>)
         | _ \<Rightarrow> None)
      else None)"
| "fa_move f (FA_Worker_send i) s =
     (if i < length (fa_workers s) \<and> i < length (fa_forwarders s)
         \<and> fa_forwarders s ! i = StageRanging then
        (case fa_workers s ! i of
           StageSelect val \<Rightarrow>
             Some (s\<lparr>fa_workers := (fa_workers s)[i := StageRanging],
                     fa_forwarders := (fa_forwarders s)[i := StageSelect (f val)]\<rparr>)
         | _ \<Rightarrow> None)
      else None)"
| "fa_move f (FA_Worker_return i) s =
     (if i < length (fa_workers s) \<and> fa_workers s ! i = StageRanging \<and> fa_in_closed s
      then Some (s\<lparr>fa_workers := (fa_workers s)[i := StageReturned]\<rparr>) else None)"
| "fa_move f (FA_Fwd_done i) s =
     (if i < length (fa_forwarders s) \<and> fa_done s then
        (case fa_forwarders s ! i of
           StageSelect val \<Rightarrow>
             Some (wg_Done (s\<lparr>fa_forwarders := (fa_forwarders s)[i := StageReturned]\<rparr>))
         | _ \<Rightarrow> None)
      else None)"
| "fa_move f (FA_Fwd_send i) s =
     (if i < length (fa_forwarders s) \<and> \<not> fa_finished s then
        (case fa_forwarders s ! i of
           StageSelect val \<Rightarrow>
             if fa_out_closed s then Some (s\<lparr>fa_panicked := True\<rparr>)
             else Some (s\<lparr>fa_forwarders := (fa_forwarders s)[i := StageRanging],
                          fa_collected := fa_collected s @ [val]\<rparr>)
         | _ \<Rightarrow> None)
      else None)"
| "fa_move f (FA_Fwd_return i) s =
     (if i < length (fa_forwarders s) \<and> i < length (fa_workers s)
         \<and> fa_forwarders s ! i = StageRanging \<and> fa_workers s ! i = StageReturned
      then Some (wg_Done (s\<lparr>fa_forwarders := (fa_forwarders s)[i := StageReturned]\<rparr>))
      else None)"
| "fa_move f FA_Close_output s =
     (if fa_wg s = 0 \<and> \<not> fa_out_closed s then Some (s\<lparr>fa_out_closed := True\<rparr>) else None)"
| "fa_move f FA_Consumer_end s =
     (if fa_out_closed s \<and> \<not> fa_finished s then Some (s\<lparr>fa_finished := True\<rparr>) else None)"

text \<open>A panic ends the process: nothing moves afterwards.\<close>

definition fa_step :: "('a \<Rightarrow> 'a) \<Rightarrow> fa_action \<Rightarrow> 'a fan \<Rightarrow> 'a fan option" where
  "fa_step f a s = (if fa_panicked s then None else fa_move f a s)"

text \<open>No goroutine can move (cancelling the context is not a goroutine's move).\<close>

definition fa_stuck :: "('a \<Rightarrow> 'a) \<Rightarrow> 'a fan \<Rightarrow> bool" where
  "fa_stuck f s \<longleftrightarrow> (\<forall>a. a \<noteq> FA_Cancel \<longrightarrow> fa_step f a s = None)"

text \<open>
  The same, decided by looking at the finitely many choices that can be enabled at all:
  those of the generator, the closer and the consumer, and those of each worker and
  forwarder.
\<close>

definition fa_choices :: "'a fan \<Rightarrow> fa_action list" where
  "fa_choices s =
     [FA_Gen_done, FA_Gen_return, FA_Close_output, FA_Consumer_end]
     @ concat (map (\<lambda>i. [FA_Gen_send i, FA_Worker_done i, FA_Worker_send i, FA_Worker_return i])
         [0 ..< length (fa_workers s)])
     @ concat (map (\<lambda>i. [FA_Fwd_done i, FA_Fwd_send i, FA_Fwd_return i])
         [0 ..< length (fa_forwarders s)])"

definition fa_quiet :: "('a \<Rightarrow> 'a) \<Rightarrow> 'a fan \<Rightarrow> bool" where
  "fa_quiet f s \<longleftrightarrow> list_all (\<lambda>a. fa_step f a s = None) (fa_choices s)"

definition fa_all_returned :: "'a fan \<Rightarrow> bool" where
  "fa_all_returned s \<longleftrightarrow>
     fa_in_closed s \<and> (\<forall>pc \<in> set (fa_workers s). pc = StageReturned)
     \<and> (\<forall>pc \<in> set (fa_forwarders s). pc = StageReturned)
     \<and> fa_out_closed s \<and> fa_finished s \<and> \<not> fa_panicked s"

text \<open>Per goroutine: whether it is alive, the value it holds, and the steps it has left.\<close>

fun stage_alive :: "'a stage_pc \<Rightarrow> nat" where
  "stage_alive StageReturned = 0"
| "stage_alive _ = 1"

fun stage_held :: "'a stage_pc \<Rightarrow> 'a multiset" where
  "stage_held (StageSelect val) = {#val#}"
| "stage_held _ = {#}"

fun worker_left :: "'a stage_pc \<Rightarrow> nat" where
  "worker_left StageReturned = 0"
| "worker_left StageRanging = 1"
| "worker_left (StageSelect val) = 3"

fun forwarder_left :: "'a stage_pc \<Rightarrow> nat" where
  "forwarder_left StageReturned = 0"
| "forwarder_left StageRanging = 1"
| "forwarder_left (StageSelect val) = 2"

text \<open>
  Facts about the control points in every reachable state of a fan of \<open>n\<close> workers,
  cancelled or not: nothing has panicked; the WaitGroup counts the forwarders that have
  not returned; the output is closed only at counter zero and the consumer's loop ends
  only on the closed output; a worker returns only on a closed input or after
  cancellation, a forwarder only after its worker or after cancellation.
\<close>

definition fa_ctl_inv :: "nat \<Rightarrow> 'a fan \<Rightarrow> bool" where
  "fa_ctl_inv n s \<longleftrightarrow>
     \<not> fa_panicked s \<and> length (fa_workers s) = n \<and> length (fa_forwarders s) = n
     \<and> fa_wg s = sum_list (map stage_alive (fa_forwarders s))
     \<and> (fa_out_closed s \<longrightarrow> fa_wg s = 0) \<and> (fa_finished s \<longrightarrow> fa_out_closed s)
     \<and> (\<forall>i < n. fa_workers s ! i = StageReturned \<longrightarrow> fa_in_closed s \<or> fa_done s)
     \<and> (\<forall>i < n. fa_forwarders s ! i = StageReturned \<longrightarrow>
            fa_workers s ! i = StageReturned \<or> fa_done s)"

text \<open>
  While the context is not cancelled: every input value, transformed, is in exactly one
  place: collected, held by a forwarder, held (not yet transformed) by a worker, or not
  yet sent; the generator returns only when it has sent everything, a worker only after
  the generator and a forwarder only after its worker.
\<close>

definition fa_data_inv :: "('a \<Rightarrow> 'a) \<Rightarrow> 'a list \<Rightarrow> 'a fan \<Rightarrow> bool" where
  "fa_data_inv f values s \<longleftrightarrow>
     \<not> fa_done s
     \<and> mset (map f values)
         = mset (fa_collected s) + sum_list (map stage_held (fa_forwarders s))
           + image_mset f (sum_list (map stage_held (fa_workers s)))
           + mset (map f (fa_values s))
     \<and> (fa_in_closed s \<longrightarrow> fa_values s = [])
     \<and> (\<forall>i < length (fa_workers s). fa_workers s ! i = StageReturned \<longrightarrow> fa_in_closed s)
     \<and> (\<forall>i < length (fa_workers s). fa_forwarders s ! i = StageReturned \<longrightarrow>
            fa_workers s ! i = StageReturned)"

definition fa_measure :: "'a fan \<Rightarrow> nat" where
  "fa_measure s =
     3 * length (fa_values s) + sum_list (map worker_left (fa_workers s))
     + sum_list (map forwarder_left (fa_forwarders s))
     + (if fa_in_closed s then 0 else 1) + (if fa_out_closed s then 0 else 1)
     + (if fa_finished s then 0 else 1) + (if fa_done s then 0 else 1)
     + (if fa_panicked s then 0 else 1)"

section \<open>OrDone and Bridge\<close>

text \<open>
  The program \<^verbatim>\<open>for val := range Bridge(ctx, chanStream) { collect val }\<close>, where
  \<^verbatim>\<open>chanStream\<close> is fed by a generator goroutine that sends the channels of \<open>n\<close> inner
  generators (\<^verbatim>\<open>Generator(ctx, ...)\<close> each) in order and then closes it.

  A lane is one inner generator with the \<^verbatim>\<open>OrDone\<close> goroutine that \<^verbatim>\<open>Bridge\<close> starts for its
  channel: the values the generator has not sent yet, whether it has returned (its
  channel is closed), and the control point of the relay: not started, at the outer
  \<^verbatim>\<open>select\<close> of \<^verbatim>\<open>OrDone\<close> (\<^verbatim>\<open>ctx.Done()\<close> or a receive from the inner channel), at the inner
  \<^verbatim>\<open>select\<close> (\<^verbatim>\<open>ctx.Done()\<close> or the send of the received value), or returned.

  The goroutine of \<^verbatim>\<open>Bridge\<close> is at its outer \<^verbatim>\<open>select\<close> (\<^verbatim>\<open>ctx.Done()\<close> or a receive from
  \<^verbatim>\<open>chanStream\<close>), ranging over the relay of lane \<open>j\<close>, at the inner \<^verbatim>\<open>select\<close> with a value of
  lane \<open>j\<close> (\<^verbatim>\<open>ctx.Done()\<close> or the send to the output), or returned. \<open>br_next\<close> is the index
  of the next channel the outer generator sends.
\<close>

datatype 'a relay_pc = RelayUnstarted | RelaySelect | RelaySend 'a | RelayReturned

record 'a lane =
  ln_values :: "'a list"
  ln_closed :: bool
  ln_relay :: "'a relay_pc"

datatype 'a bridge_pc = BridgeSelect | BridgeRanging nat | BridgeSend nat 'a | BridgeReturned

record 'a bridge =
  br_done :: bool
  br_lanes :: "'a lane list"
  br_next :: nat
  br_outer_closed :: bool
  br_pc :: "'a bridge_pc"
  br_collected :: "'a list"
  br_finished :: bool

definition new_lane :: "'a list \<Rightarrow> 'a lane" where
  "new_lane values = \<lparr>ln_values = values, ln_closed = False, ln_relay = RelayUnstarted\<rparr>"

definition br_init :: "'a list list \<Rightarrow> 'a bridge" where
  "br_init inner =
     \<lparr>br_done = False, br_lanes = map new_lane inner, br_next = 0, br_outer_closed = False,
      br_pc = BridgeSelect, br_collected = [], br_finished = False\<rparr>"

text \<open>
  The scheduler's choices. A receive and the matching send on an unbuffered channel
  are one step: \<open>BR_Outer_send\<close> (the outer generator hands the next channel to \<^verbatim>\<open>Bridge\<close>,
  which starts \<^verbatim>\<open>OrDone\<close> on it and ranges over the relay), \<open>BR_Relay_recv j\<close> (inner
  generator \<open>j\<close> to its relay) and \<open>BR_Relay_send j\<close> (relay \<open>j\<close> to \<^verbatim>\<open>Bridge\<close>).
\<close>

datatype br_action =
  BR_Cancel
  | BR_Inner_done nat | BR_Inner_return nat
  | BR_Outer_send | BR_Outer_done | BR_Outer_return
  | BR_Bridge_done | BR_Bridge_outer_closed
  | BR_Relay_done nat | BR_Relay_recv nat | BR_Relay_closed nat
  | BR_Relay_send_done nat | BR_Relay_send nat
  | BR_Bridge_relay_closed | BR_Bridge_send_done | BR_Bridge_send
  | BR_Consumer_end

definition set_lane :: "nat \<Rightarrow> 'a lane \<Rightarrow> 'a bridge \<Rightarrow> 'a bridge" where
  "set_lane j l s = s\<lparr>br_lanes := (br_lanes s)[j := l]\<rparr>"

fun br_step :: "br_action \<Rightarrow> 'a bridge \<Rightarrow> 'a bridge option" where
  "br_step BR_Cancel s = (if br_done s then None else Some (s\<lparr>br_done := True\<rparr>))"
| "br_step (BR_Inner_done j) s =
     (if j < length (br_lanes s) \<and> ln_values (br_lanes s ! j) \<noteq> []
         \<and> \<not> ln_closed (br_lanes s ! j) \<and> br_done s
      then Some (set_lane j ((br_lanes s ! j)\<lparr>ln_closed := True\<rparr>) s) else None)"
| "br_step (BR_Inner_return j) s =
     (if j < length (br_lanes s) \<and> ln_values (br_lanes s ! j) = []
         \<and> \<not> ln_closed (br_lanes s ! j)
      then Some (set_lane j ((br_lanes s ! j)\<lparr>ln_closed := True\<rparr>) s) else None)"
| "br_step BR_Outer_send s =
     (if br_next s < length (br_lanes s) \<and> \<not> br_outer_closed s \<and> br_pc s = BridgeSelect
      then Some ((set_lane (br_next s) ((br_lanes s ! br_next s)\<lparr>ln_relay := RelaySelect\<rparr>) s)
                   \<lparr>br_next := Suc (br_next s), br_pc := BridgeRanging (br_next s)\<rparr>)
      else None)"
| "br_step BR_Outer_done s =
     (if br_next s < length (br_lanes s) \<and> \<not> br_outer_closed s \<and> br_done s
      then Some (s\<lparr>br_outer_closed := True\<rparr>) else None)"
| "br_step BR_Outer_return s =
     (if \<not> br_next s < length (br_lanes s) \<and> \<not> br_outer_closed s
      then Some (s\<lparr>br_outer_closed := True\<rparr>) else None)"
| "br_step BR_Bridge_done s =
     (if br_pc s = BridgeSelect \<and> br_done s then Some (s\<lparr>br_pc := BridgeReturned\<rparr>) else None)"
| "br_step BR_Bridge_outer_closed s =
     (if br_pc s = BridgeSelect \<and> br_outer_closed s
      then Some (s\<lparr>br_pc := BridgeReturned\<rparr>) else None)"
| "br_step (BR_Relay_done j) s =
     (if j < length (br_lanes s) \<and> ln_relay (br_lanes s ! j) = RelaySelect \<and> br_done s
      then Some (set_lane j ((br_lanes s ! j)\<lparr>ln_relay := RelayReturned\<rparr>) s) else None)"
| "br_step (BR_Relay_recv j) s =
     (if j < length (br_lanes s) \<and> ln_relay (br_lanes s ! j) = RelaySelect
         \<and> \<not> ln_closed (br_lanes s ! j) then
        (case ln_values (br_lanes s ! j) of
           [] \<Rightarrow> None
         | val # vals \<Rightarrow>
             Some (set_lane j ((br_lanes s ! j)\<lparr>ln_values := vals, ln_relay := RelaySend val\<rparr>) s))
      else None)"
| "br_step (BR_Relay_closed j) s =
     (if j < length (br_lanes s) \<and> ln_relay (br_lanes s ! j) = RelaySelect
         \<and> ln_closed (br_lanes s ! j)
      then Some (set_lane j ((br_lanes s ! j)\<lparr>ln_relay := RelayReturned\<rparr>) s) else None)"
| "br_step (BR_Relay_send_done j) s =
     (if j < length (br_lanes s) \<and> br_done s then
        (case ln_relay (br_lanes s ! j) of
           RelaySend val \<Rightarrow> Some (set_lane j ((br_lanes s ! j)\<lparr>ln_relay := RelayReturned\<rparr>) s)
         | _ \<Rightarrow> None)
      else None)"
| "br_step (BR_Relay_send j) s =
     (if j < length (br_lanes s) \<and> br_pc s = BridgeRanging j then
        (case ln_relay (br_lanes s ! j) of
           RelaySend val \<Rightarrow>
             Some ((set_lane j ((br_lanes s ! j)\<lparr>ln_relay := RelaySelect\<rparr>) s)
                     \<lparr>br_pc := BridgeSend j val\<rparr>)
         | _ \<Rightarrow> None)
      else None)"
| "br_step BR_Bridge_relay_closed s =
     (case br_pc s of
        BridgeRanging j \<Rightarrow>
          if j < length (br_lanes s) \<and> ln_relay (br_lanes s ! j) = RelayReturned
          then Some (s\<lparr>br_pc := BridgeSelect\<rparr>) else None
      | _ \<Rightarrow> None)"
| "br_step BR_Bridge_send_done s =
     (case br_pc s of
        BridgeSend j val \<Rightarrow> if br_done s then Some (s\<lparr>br_pc := BridgeReturned\<rparr>) else None
      | _ \<Rightarrow> None)"
| "br_step BR_Bridge_send s =
     (case br_pc s of
        BridgeSend j val \<Rightarrow>
          if \<not> br_finished s
          then Some (s\<lparr>br_pc := BridgeRanging j, br_collected := br_collected s @ [val]\<rparr>)
          else None
      | _ \<Rightarrow> None)"
| "br_step BR_Consumer_end s =
     (if br_pc s = BridgeReturned \<and> \<not> br_finished s
      then Some (s\<lparr>br_finished := True\<rparr>) else None)"

text \<open>No goroutine can move (cancelling the context is not a goroutine's move).\<close>

definition br_stuck :: "'a bridge \<Rightarrow> bool" where
  "br_stuck s \<longleftrightarrow> (\<forall>a. a \<noteq> BR_Cancel \<longrightarrow> br_step a s = None)"

text \<open>The same, decided on the finitely many choices that can be enabled at all.\<close>

definition br_choices :: "'a bridge \<Rightarrow> br_action list" where
  "br_choices s =
     [BR_Outer_send, BR_Outer_done, BR_Outer_return, BR_Bridge_done, BR_Bridge_outer_closed,
      BR_Bridge_relay_closed, BR_Bridge_send_done, BR_Bridge_send, BR_Consumer_end]
     @ concat (map (\<lambda>j. [BR_Inner_done j, BR_Inner_return j, BR_Relay_done j, BR_Relay_recv j,
                          BR_Relay_closed j, BR_Relay_send_done j, BR_Relay_send j])
         [0 ..< length (br_lanes s)])"

definition br_quiet :: "'a bridge \<Rightarrow> bool" where
  "br_quiet s \<longleftrightarrow> list_all (\<lambda>a. br_step a s = None) (br_choices s)"

text \<open>A relay that is running, and the value it holds.\<close>

fun relay_active :: "'a relay_pc \<Rightarrow> bool" where
  "relay_active RelaySelect = True"
| "relay_active (RelaySend val) = True"
| "relay_active _ = False"

fun relay_item :: "'a relay_pc \<Rightarrow> 'a list" where
  "relay_item (RelaySend val) = [val]"
| "relay_item _ = []"

text \<open>The lane \<^verbatim>\<open>Bridge\<close> is draining, if any.\<close>

fun bridge_lane :: "'a bridge_pc \<Rightarrow> nat option" where
  "bridge_lane (BridgeRanging j) = Some j"
| "bridge_lane (BridgeSend j val) = Some j"
| "bridge_lane _ = None"

fun bridge_item :: "'a bridge_pc \<Rightarrow> 'a list" where
  "bridge_item (BridgeSend j val) = [val]"
| "bridge_item _ = []"

definition br_all_returned :: "'a bridge \<Rightarrow> bool" where
  "br_all_returned s \<longleftrightarrow>
     br_outer_closed s
     \<and> (\<forall>l \<in> set (br_lanes s). ln_closed l \<and> \<not> relay_active (ln_relay l))
     \<and> br_pc s = BridgeReturned \<and> br_finished s"

text \<open>
  Facts about the control points in every reachable state, cancelled or not: the
  consumer's loop ends only after \<^verbatim>\<open>Bridge\<close> returned, which returns only on the closed
  outer channel or after cancellation; the relays started are those of the channels
  the outer generator has sent, and \<^verbatim>\<open>Bridge\<close> drains one of these; and as long as the
  context is not cancelled, only the relay \<^verbatim>\<open>Bridge\<close> is draining runs, a relay returns
  only on its closed inner channel, and the outer generator returns only after it has
  sent every channel.
\<close>

definition br_ctl_inv :: "'a bridge \<Rightarrow> bool" where
  "br_ctl_inv s \<longleftrightarrow>
     br_next s \<le> length (br_lanes s)
     \<and> (br_finished s \<longrightarrow> br_pc s = BridgeReturned)
     \<and> (br_pc s = BridgeReturned \<longrightarrow> br_outer_closed s \<or> br_done s)
     \<and> (\<forall>j. bridge_lane (br_pc s) = Some j \<longrightarrow> j < br_next s)
     \<and> (\<forall>j < length (br_lanes s). ln_relay (br_lanes s ! j) = RelayUnstarted \<longleftrightarrow> br_next s \<le> j)
     \<and> (\<not> br_done s \<longrightarrow>
          (\<forall>j < length (br_lanes s).
             (relay_active (ln_relay (br_lanes s ! j)) \<longrightarrow> bridge_lane (br_pc s) = Some j)
             \<and> (ln_relay (br_lanes s ! j) = RelayReturned \<longrightarrow> ln_closed (br_lanes s ! j)))
          \<and> (br_outer_closed s \<longrightarrow> br_next s = length (br_lanes s)))"

text \<open>
  How far the flattening has got: the lanes before \<open>br_drained s\<close> are finished, and what
  \<^verbatim>\<open>Bridge\<close>, the relay and the generator of the lane being drained still hold, in order.
\<close>

definition br_drained :: "'a bridge \<Rightarrow> nat" where
  "br_drained s = (case bridge_lane (br_pc s) of Some j \<Rightarrow> j | None \<Rightarrow> br_next s)"

definition br_pending :: "'a bridge \<Rightarrow> 'a list" where
  "br_pending s =
     (case bridge_lane (br_pc s) of
        Some j \<Rightarrow>
          bridge_item (br_pc s) @ relay_item (ln_relay (br_lanes s ! j))
          @ ln_values (br_lanes s ! j)
      | None \<Rightarrow> [])"

text \<open>
  While the context is not cancelled: the collected values followed by what is pending in
  the lane being drained are the concatenation of the inner lists handed over so far;
  the lane being drained is the last one handed over; the lanes not handed over are
  untouched; the lanes before the one being drained are exhausted, closed, and their
  relays have returned; and \<^verbatim>\<open>Bridge\<close> returns only on the closed outer channel.
\<close>

definition br_data_inv :: "'a list list \<Rightarrow> 'a bridge \<Rightarrow> bool" where
  "br_data_inv inner s \<longleftrightarrow>
     \<not> br_done s \<and> length (br_lanes s) = length inner
     \<and> br_collected s @ br_pending s = concat (take (br_next s) inner)
     \<and> (\<forall>j. bridge_lane (br_pc s) = Some j \<longrightarrow> Suc j = br_next s)
     \<and> (\<forall>j < length inner. br_next s \<le> j \<longrightarrow> ln_values (br_lanes s ! j) = inner ! j)
     \<and> (\<forall>j < length inner. ln_closed (br_lanes s ! j) \<longrightarrow> ln_values (br_lanes s ! j) = [])
     \<and> (\<forall>j < br_drained s.
           ln_values (br_lanes s ! j) = [] \<and> ln_closed (br_lanes s ! j)
           \<and> ln_relay (br_lanes s ! j) = RelayReturned)
     \<and> (br_pc s = BridgeReturned \<longrightarrow> br_outer_closed s)"

text \<open>The steps left.\<close>

fun relay_left :: "'a relay_pc \<Rightarrow> nat" where
  "relay_left RelayUnstarted = 0"
| "relay_left RelaySelect = 1"
| "relay_left (RelaySend val) = 3"
| "relay_left RelayReturned = 0"

definition lane_left :: "'a lane \<Rightarrow> nat" where
  "lane_left l =
     3 * length (ln_values l) + (if ln_closed l then 0 else 1) + relay_left (ln_relay l)"

fun bridge_left :: "'a bridge_pc \<Rightarrow> nat" where
  "bridge_left BridgeSelect = 1"
| "bridge_left (BridgeRanging j) = 2"
| "bridge_left (BridgeSend j val) = 3"
| "bridge_left BridgeReturned = 0"

definition br_measure :: "'a bridge \<Rightarrow> nat" where
  "br_measure s =
     sum_list (map lane_left (br_lanes s)) + bridge_left (br_pc s)
     + 3 * (length (br_lanes s) - br_next s) + (if br_outer_closed s then 0 else 1)
     + (if br_finished s then 0 else 1) + (if br_done s then 0 else 1)"

section \<open>Schedules: general facts\<close>

lemma run_append:
  "run step (xs @ ys) s = (case run step xs s of None \<Rightarrow> None | Some s' \<Rightarrow> run step ys s')"
  by (induction xs arbitrary: s) (auto split: option.splits)

text \<open>A property that holds initially and is kept by every step holds after any schedule.\<close>

lemma run_invariant:
  assumes "run step sched s0 = Some s" and "I s0"
    and "\<And>a s s'. a \<in> set sched \<Longrightarrow> I s \<Longrightarrow> step a s = Some s' \<Longrightarrow> I s'"
  shows "I s"
  using assms
proof (induction sched arbitrary: s0)
  case Nil
  then show ?case by simp
next
  case (Cons a as)
  from Cons.prems(1) obtain s1 where a: "step a s0 = Some s1" and r: "run step as s1 = Some s"
    by (auto split: option.splits)
  have "I s1" using Cons.prems(3)[of a s0 s1] Cons.prems(2) a by simp
  show ?case
  proof (rule Cons.IH[OF r \<open>I s1\<close>])
    fix b t t' assume "b \<in> set as" "I t" "step b t = Some t'"
    then show "I t'" using Cons.prems(3)[of b t t'] by simp
  qed
qed

text \<open>If every step lowers a measure, a schedule is no longer than the measure allows.\<close>

lemma run_measure:
  assumes "run step sched s0 = Some s"
    and "\<And>a s s'. a \<in> set sched \<Longrightarrow> step a s = Some s' \<Longrightarrow> m s' < (m s :: nat)"
  shows "length sched + m s \<le> m s0"
  using assms
proof (induction sched arbitrary: s0)
  case Nil
  then show ?case by simp
next
  case (Cons a as)
  from Cons.prems(1) obtain s1 where a: "step a s0 = Some s1" and r: "run step as s1 = Some s"
    by (auto split: option.splits)
  have "m s1 < m s0" using Cons.prems(2)[of a s0 s1] a by simp
  moreover have "length as + m s \<le> m s1"
  proof (rule Cons.IH[OF r])
    fix b t t' assume "b \<in> set as" "step b t = Some t'"
    then show "m t' < m t" using Cons.prems(2)[of b t t'] by simp
  qed
  ultimately show ?case by simp
qed

text \<open>
  If every step lowers a measure, every state can be run on to a state where no choice
  of \<open>A\<close> is enabled.
\<close>

lemma run_complete:
  assumes "\<And>a s s'. a \<in> A \<Longrightarrow> step a s = Some s' \<Longrightarrow> m s' < (m s :: nat)"
  shows "\<exists>sched s'. set sched \<subseteq> A \<and> run step sched s = Some s' \<and> (\<forall>a \<in> A. step a s' = None)"
proof (induction "m s" arbitrary: s rule: less_induct)
  case less
  show ?case
  proof (cases "\<forall>a \<in> A. step a s = None")
    case True
    have "set [] \<subseteq> A \<and> run step [] s = Some s \<and> (\<forall>a \<in> A. step a s = None)" using True by simp
    then show ?thesis by blast
  next
    case False
    then obtain a s1 where a: "a \<in> A" "step a s = Some s1" by auto
    then have "m s1 < m s" using assms by blast
    from less[OF this] obtain sched s' where
      "set sched \<subseteq> A" "run step sched s1 = Some s'" "\<forall>a \<in> A. step a s' = None" by blast
    then have "set (a # sched) \<subseteq> A \<and> run step (a # sched) s = Some s' \<and> (\<forall>a \<in> A. step a s' = None)"
      using a by simp
    then show ?thesis by blast
  qed
qed

text \<open>Replacing one element of a list changes a sum over the list by that element's share.\<close>

lemma sum_list_map_update:
  "i < length xs \<Longrightarrow>
   sum_list (map f (xs[i := x])) + f (xs ! i) = sum_list (map f xs) + (f x :: 'b :: comm_monoid_add)"
proof (induction xs arbitrary: i)
  case Nil
  then show ?case by simp
next
  case (Cons y ys)
  show ?case
  proof (cases i)
    case 0
    then show ?thesis by (simp add: ac_simps)
  next
    case (Suc k)
    then have "k < length ys" using Cons.prems by simp
    from Cons.IH[OF this] show ?thesis using Suc by (simp add: ac_simps) 
  qed
qed

section \<open>Rate limiter: the bucket\<close>

lemma fill_tokens_ok:
  "\<not> closed c \<Longrightarrow> length (buf c) + n \<le> cap c \<Longrightarrow>
   fill_tokens n c = Proceeds (c\<lparr>buf := buf c @ replicate n ()\<rparr>)"
proof (induction n arbitrary: c)
  case 0
  then show ?case by simp
next
  case (Suc n)
  then show ?case by (simp add: chan_send_def replicate_app_Cons_same)
qed

lemma NewRateLimiter_Proceeds:
  "NewRateLimiter C r = Proceeds rl \<Longrightarrow>
   0 \<le> C \<and> rl = \<lparr>tokens = \<lparr>buf = replicate (nat C) (), cap = nat C, closed = False\<rparr>, rate = r,
      stop_closed = False, refill = RefillStarting, waiting = 0, rl_panicked = False\<rparr>"
  by (auto simp: NewRateLimiter_def fill_tokens_ok make_chan_def split: if_splits)

lemma Allow_times_full:
  "\<not> closed (tokens rl) \<Longrightarrow> buf (tokens rl) = replicate n () \<Longrightarrow>
   fst (Allow_times (Suc n) rl) = replicate n True @ [False]"
proof (induction n arbitrary: rl)
  case 0
  then show ?case by (simp add: Allow_def chan_recv_def)
next
  case (Suc n)
  let ?rl' = "rl\<lparr>tokens := (tokens rl)\<lparr>buf := replicate n ()\<rparr>\<rparr>"
  have a: "Allow rl = (True, ?rl')" using Suc.prems by (simp add: Allow_def chan_recv_def)
  have "fst (Allow_times (Suc n) ?rl') = replicate n True @ [False]"
    by (rule Suc.IH) (use Suc.prems in simp_all)
  then show ?case using a by (simp add: split_beta Let_def)
qed

lemma rl_inv_step: "rl_inv n rl \<Longrightarrow> rl_step a rl = Some rl' \<Longrightarrow> rl_inv n rl'"
  by (cases a)
    (auto simp: rl_inv_def Allow_def Wait_def refill_tick_def chan_recv_def chan_try_send_def
      chan_send_def split: if_splits list.splits)

lemma refill_tick_full:
  "rl_inv n rl \<Longrightarrow> length (buf (tokens rl)) = n \<Longrightarrow>
   tokens (refill_tick rl) = tokens rl \<and> (waiting rl = 0 \<longrightarrow> refill_tick rl = rl)"
  by (auto simp: rl_inv_def refill_tick_def chan_try_send_def chan_send_def)

text \<open>
  Claim C9. A limiter freshly constructed with capacity \<open>C\<close> answers \<open>C + 1\<close> consecutive
  calls of \<^verbatim>\<open>Allow()\<close>, with no refill tick and no \<^verbatim>\<open>Wait()\<close> in between, with \<open>C\<close> times
  true and then false. After any schedule of calls and refill steps the number of
  tokens in the bucket is between 0 and \<open>C\<close>, and a refill tick that finds the bucket
  full leaves the bucket as it is (and the whole limiter, when nobody is parked in
  \<^verbatim>\<open>Wait()\<close>, which can only be the case for \<open>C = 0\<close>).
\<close>

theorem C9_rate_limiter_bucket:
  assumes "NewRateLimiter C r = Proceeds rl0"
  shows "fst (Allow_times (nat C + 1) rl0) = replicate (nat C) True @ [False]
    \<and> (\<forall>sched rl. run rl_step sched rl0 = Some rl \<longrightarrow>
         0 \<le> int (length (buf (tokens rl))) \<and> int (length (buf (tokens rl))) \<le> C
         \<and> (length (buf (tokens rl)) = nat C \<longrightarrow>
              tokens (refill_tick rl) = tokens rl \<and> (waiting rl = 0 \<longrightarrow> refill_tick rl = rl)))"
proof -
  note init = NewRateLimiter_Proceeds[OF assms]
  have a: "fst (Allow_times (nat C + 1) rl0) = replicate (nat C) True @ [False]"
    using Allow_times_full[of rl0 "nat C"] init by simp
  have i0: "rl_inv (nat C) rl0" using init by (simp add: rl_inv_def)
  have inv: "rl_inv (nat C) rl" if "run rl_step sched rl0 = Some rl" for sched rl
    using that i0 by (rule run_invariant) (rule rl_inv_step)
  have b: "0 \<le> int (length (buf (tokens rl))) \<and> int (length (buf (tokens rl))) \<le> C
         \<and> (length (buf (tokens rl)) = nat C \<longrightarrow>
              tokens (refill_tick rl) = tokens rl \<and> (waiting rl = 0 \<longrightarrow> refill_tick rl = rl))"
    if "run rl_step sched rl0 = Some rl" for sched rl
  proof -
    have i: "rl_inv (nat C) rl" by (rule inv[OF that])
    then have "length (buf (tokens rl)) \<le> nat C" by (simp add: rl_inv_def)
    then have "int (length (buf (tokens rl))) \<le> C" using init by linarith
    then show ?thesis using refill_tick_full[OF i] by simp
  qed
  show ?thesis using a b by blast
qed

text \<open>
  The limiter of the repository's example, \<^verbatim>\<open>NewRateLimiter(3, 100*time.Millisecond)\<close>:
  three calls are allowed and the fourth is not; and after the refill goroutine has
  started and ticked once on the full bucket, the limiter still holds three tokens and a
  further tick changes nothing.
\<close>

theorem C9_rate_limiter_bucket_witness:
  "NewRateLimiter 3 100000000 =
     Proceeds \<lparr>tokens = \<lparr>buf = [(), (), ()], cap = 3, closed = False\<rparr>, rate = 100000000,
       stop_closed = False, refill = RefillStarting, waiting = 0, rl_panicked = False\<rparr>
   \<and> fst (Allow_times 4
       \<lparr>tokens = \<lparr>buf = [(), (), ()], cap = 3, closed = False\<rparr>, rate = 100000000,
        stop_closed = False, refill = RefillStarting, waiting = 0, rl_panicked = False\<rparr>)
     = [True, True, True, False]
   \<and> run rl_step [RL_RefillStart, RL_Tick]
       \<lparr>tokens = \<lparr>buf = [(), (), ()], cap = 3, closed = False\<rparr>, rate = 100000000,
        stop_closed = False, refill = RefillStarting, waiting = 0, rl_panicked = False\<rparr>
     = Some \<lparr>tokens = \<lparr>buf = [(), (), ()], cap = 3, closed = False\<rparr>, rate = 100000000,
        stop_closed = False, refill = RefillTicking, waiting = 0, rl_panicked = False\<rparr>
   \<and> refill_tick \<lparr>tokens = \<lparr>buf = [(), (), ()], cap = 3, closed = False\<rparr>, rate = 100000000,
        stop_closed = False, refill = RefillTicking, waiting = 0, rl_panicked = False\<rparr>
     = \<lparr>tokens = \<lparr>buf = [(), (), ()], cap = 3, closed = False\<rparr>, rate = 100000000,
        stop_closed = False, refill = RefillTicking, waiting = 0, rl_panicked = False\<rparr>"
proof -
  let ?rl = "\<lparr>tokens = \<lparr>buf = [(), (), ()], cap = 3, closed = False\<rparr>, rate = 100000000,
       stop_closed = False, refill = RefillStarting, waiting = 0, rl_panicked = False\<rparr>"
  let ?rl' = "?rl\<lparr>refill := RefillTicking\<rparr>"
  have n: "NewRateLimiter 3 100000000 = Proceeds ?rl"
    by (simp add: NewRateLimiter_def make_chan_def chan_send_def eval_nat_numeral)
  have r: "run rl_step [RL_RefillStart, RL_Tick] ?rl = Some ?rl'"
    by (simp add: refill_tick_def chan_try_send_def chan_send_def)
  have "length (buf (tokens ?rl')) = nat 3" by simp
  with C9_rate_limiter_bucket[OF n] r
  have "fst (Allow_times (nat 3 + 1) ?rl) = replicate (nat 3) True @ [False]"
    and "refill_tick ?rl' = ?rl'"
    by (blast, force)
  then show ?thesis using n r by (simp add: eval_nat_numeral)
qed

section \<open>Worker pool: the queue after Close\<close>

lemma wp_closed_inv_init: "wp_closed_inv calls (NewWorkerPool w calls)"
  by (simp add: wp_closed_inv_def NewWorkerPool_def make_chan_def)

lemma wp_closed_inv_step:
  assumes "wp_closed_inv calls p" "wp_step a p = Some p'"
  shows "wp_closed_inv calls p'"
proof -
  from assms(1) obtain made where m: "calls = made @ wp_script p"
    "CallClose \<in> set made \<longrightarrow> closed (wp_jobs p)"
    by (auto simp: wp_closed_inv_def)
  show ?thesis
  proof (cases a)
    case WP_Caller
    show ?thesis
    proof (cases "wp_cpc p")
      case InWait
      then show ?thesis using assms(2) m WP_Caller
        by (auto simp: wp_closed_inv_def wp_step_def wp_caller_def Close_wait_def
            split: if_split_asm)
    next
      case Ready
      show ?thesis
      proof (cases "wp_script p")
        case Nil
        then show ?thesis using assms(2) WP_Caller Ready
          by (simp add: wp_step_def wp_caller_def split: if_split_asm)
      next
        case (Cons c rest)
        have t: "calls = (made @ [c]) @ rest" using m Cons by simp
        show ?thesis
        proof (cases c)
          case (CallSubmit j)
          then show ?thesis using assms(2) m WP_Caller Cons Ready t
            by (auto simp: wp_closed_inv_def wp_step_def wp_caller_def Submit_def
              chan_send_def split: if_split_asm)
        next
          case CallClose
          then show ?thesis using assms(2) m WP_Caller Cons Ready t
            by (auto simp: wp_closed_inv_def wp_step_def wp_caller_def Close_jobs_def
              chan_close_def split: if_split_asm)
        qed
      qed
    qed
  next
    case (WP_Worker i)
    then show ?thesis using assms(2) m
      by (auto simp: wp_closed_inv_def wp_step_def wp_worker_def chan_recv_def
          split: if_split_asm worker_pc.split_asm list.split_asm job_end.split_asm)
  qed
qed

text \<open>
  Claim C10. A client whose calls are anything, then \<^verbatim>\<open>Close()\<close>, then \<^verbatim>\<open>Submit(job)\<close>:
  under every schedule of the client and the workers, once \<^verbatim>\<open>Close()\<close> has returned
  and the client stands at that \<^verbatim>\<open>Submit\<close>, the send on the queue panics, for every number of workers and whatever the queue holds: the call neither
  blocks nor enqueues or drops the job, and the client's step ends the process.
\<close>

theorem C10_submit_after_close_panics:
  assumes "run wp_step sched (NewWorkerPool w (pre @ CallClose # CallSubmit job # post)) = Some p"
    and "wp_script p = CallSubmit job # post" and "wp_cpc p = Ready" and "\<not> wp_panicked p"
  shows "Submit job p = Panics \<and> wp_step WP_Caller p = Some (p\<lparr>wp_panicked := True\<rparr>)"
proof -
  let ?calls = "pre @ CallClose # CallSubmit job # post"
  have "wp_closed_inv ?calls p"
    using assms(1) wp_closed_inv_init by (rule run_invariant) (rule wp_closed_inv_step)
  then obtain made where m: "?calls = made @ wp_script p"
    "CallClose \<in> set made \<longrightarrow> closed (wp_jobs p)"
    by (auto simp: wp_closed_inv_def)
  have "(pre @ [CallClose]) @ CallSubmit job # post = made @ CallSubmit job # post"
    using m(1) assms(2) by simp
  then have "made = pre @ [CallClose]" by (simp only: append_same_eq)
  then have c: "closed (wp_jobs p)" using m(2) by simp
  then have s: "Submit job p = Panics" by (simp add: Submit_def chan_send_def)
  then show ?thesis using assms by (simp add: wp_step_def wp_caller_def)
qed

text \<open>
  One worker; the client submits job 7 (a func that returns), closes the pool and submits
  job 8. After job 7 has run and \<^verbatim>\<open>Close()\<close> has returned, the second \<^verbatim>\<open>Submit\<close> panics.
\<close>

theorem C10_submit_after_close_panics_witness:
  "run wp_step [WP_Caller, WP_Worker 0, WP_Worker 0, WP_Caller, WP_Worker 0, WP_Caller]
     (NewWorkerPool 1
        [CallSubmit (Func (7::nat) Job_returns), CallClose, CallSubmit (Func 8 Job_returns)])
   = Some \<lparr>wp_workers = 1, wp_jobs = \<lparr>buf = [], cap = 100, closed = True\<rparr>, wp_wg = 0,
       wp_pcs = [Exited], wp_script = [CallSubmit (Func 8 Job_returns)], wp_cpc = Ready,
       wp_completed = [Func 7 Job_returns], wp_panicked = False\<rparr>
   \<and> Submit (Func 8 Job_returns)
       \<lparr>wp_workers = 1, wp_jobs = \<lparr>buf = [], cap = 100, closed = True\<rparr>, wp_wg = 0,
       wp_pcs = [Exited], wp_script = [CallSubmit (Func (8::nat) Job_returns)], wp_cpc = Ready,
       wp_completed = [Func 7 Job_returns], wp_panicked = False\<rparr> = Panics
   \<and> wp_step WP_Caller \<lparr>wp_workers = 1, wp_jobs = \<lparr>buf = [], cap = 100, closed = True\<rparr>,
       wp_wg = 0, wp_pcs = [Exited], wp_script = [CallSubmit (Func (8::nat) Job_returns)],
       wp_cpc = Ready, wp_completed = [Func 7 Job_returns], wp_panicked = False\<rparr>
     = Some \<lparr>wp_workers = 1, wp_jobs = \<lparr>buf = [], cap = 100, closed = True\<rparr>,
       wp_wg = 0, wp_pcs = [Exited], wp_script = [CallSubmit (Func (8::nat) Job_returns)],
       wp_cpc = Ready, wp_completed = [Func 7 Job_returns], wp_panicked = True\<rparr>"
proof -
  let ?p = "\<lparr>wp_workers = 1, wp_jobs = \<lparr>buf = [], cap = 100, closed = True\<rparr>, wp_wg = 0,
       wp_pcs = [Exited], wp_script = [CallSubmit (Func (8::nat) Job_returns)], wp_cpc = Ready,
       wp_completed = [Func 7 Job_returns], wp_panicked = False\<rparr>"
  have r: "run wp_step [WP_Caller, WP_Worker 0, WP_Worker 0, WP_Caller, WP_Worker 0, WP_Caller]
     (NewWorkerPool 1 ([CallSubmit (Func (7::nat) Job_returns)]
        @ CallClose # CallSubmit (Func 8 Job_returns) # [])) = Some ?p"
    by (simp add: NewWorkerPool_def make_chan_def wp_step_def wp_caller_def wp_worker_def
        Submit_def Close_jobs_def Close_wait_def chan_send_def chan_recv_def chan_close_def)
  from C10_submit_after_close_panics[OF r] r show ?thesis by simp
qed

section \<open>Worker pool: every job runs once and Close waits for all\<close>

lemma wp_worker_cases:
  assumes "wp_step (WP_Worker i) p = Some p'"
  obtains (take) job rest where "i < length (wp_pcs p)" "wp_pcs p ! i = Ranging"
      "buf (wp_jobs p) = job # rest"
      "p' = p\<lparr>wp_jobs := (wp_jobs p)\<lparr>buf := rest\<rparr>, wp_pcs := (wp_pcs p)[i := Running job]\<rparr>"
    | (exit) "i < length (wp_pcs p)" "wp_pcs p ! i = Ranging" "buf (wp_jobs p) = []"
      "closed (wp_jobs p)" "wp_wg p \<noteq> 0"
      "p' = p\<lparr>wp_pcs := (wp_pcs p)[i := Exited], wp_wg := wp_wg p - 1\<rparr>"
    | (panic) "i < length (wp_pcs p)" "wp_pcs p ! i = Ranging" "buf (wp_jobs p) = []"
      "closed (wp_jobs p)" "wp_wg p = 0" "p' = p\<lparr>wp_panicked := True\<rparr>"
    | (finish) job where "i < length (wp_pcs p)" "wp_pcs p ! i = Running job"
      "job_call job = Job_returns"
      "p' = p\<lparr>wp_pcs := (wp_pcs p)[i := Ranging], wp_completed := wp_completed p @ [job]\<rparr>"
    | (job_panic) job where "i < length (wp_pcs p)" "wp_pcs p ! i = Running job"
      "job_call job = Job_panics" "p' = p\<lparr>wp_panicked := True\<rparr>"
  using assms
  by (auto simp: wp_step_def wp_worker_def chan_recv_def
      split: if_split_asm worker_pc.split_asm list.split_asm job_end.split_asm)

lemma wp_caller_cases:
  assumes "wp_step WP_Caller p = Some p'"
  obtains (return) "wp_cpc p = InWait" "wp_wg p = 0" "p' = p\<lparr>wp_cpc := Ready\<rparr>"
    | (submit) job rest where "wp_cpc p = Ready" "wp_script p = CallSubmit job # rest"
        "\<not> closed (wp_jobs p)" "length (buf (wp_jobs p)) < cap (wp_jobs p)"
        "p' = p\<lparr>wp_jobs := (wp_jobs p)\<lparr>buf := buf (wp_jobs p) @ [job]\<rparr>, wp_script := rest\<rparr>"
    | (submit_panic) job rest where "wp_cpc p = Ready" "wp_script p = CallSubmit job # rest"
        "closed (wp_jobs p)" "p' = p\<lparr>wp_panicked := True\<rparr>"
    | (close) rest where "wp_cpc p = Ready" "wp_script p = CallClose # rest"
        "\<not> closed (wp_jobs p)"
        "p' = p\<lparr>wp_jobs := (wp_jobs p)\<lparr>closed := True\<rparr>, wp_script := rest, wp_cpc := InWait\<rparr>"
    | (close_panic) rest where "wp_cpc p = Ready" "wp_script p = CallClose # rest"
        "closed (wp_jobs p)" "p' = p\<lparr>wp_panicked := True\<rparr>"
  using assms
  by (auto simp: wp_step_def wp_caller_def Close_wait_def Submit_def Close_jobs_def
      chan_send_def chan_close_def
      split: if_split_asm caller_pc.split_asm list.split_asm pool_call.split_asm)

lemma wp_not_panicked: "wp_step a p = Some p' \<Longrightarrow> \<not> wp_panicked p"
  by (simp add: wp_step_def split: if_split_asm)

lemma wp_measure_step:
  assumes "wp_step a p = Some p'"
  shows "wp_measure p' < wp_measure p"
proof (cases a)
  case WP_Caller
  from assms[unfolded WP_Caller] wp_not_panicked[OF assms] show ?thesis
    by (cases rule: wp_caller_cases) (simp_all add: wp_measure_def)
next
  case (WP_Worker i)
  from assms[unfolded WP_Worker] show ?thesis
  proof (cases rule: wp_worker_cases)
    case (take job rest)
    from sum_list_map_update[OF take(1), of worker_weight "Running job"] take
    show ?thesis by (simp add: wp_measure_def)
  next
    case exit
    from sum_list_map_update[OF exit(1), of worker_weight Exited] exit
    show ?thesis by (simp add: wp_measure_def)
  next
    case panic
    then show ?thesis using wp_not_panicked[OF assms] by (simp add: wp_measure_def)
  next
    case (finish job)
    from sum_list_map_update[OF finish(1), of worker_weight Ranging] finish
    show ?thesis by (simp add: wp_measure_def)
  next
    case (job_panic job)
    then show ?thesis using wp_not_panicked[OF assms] by (simp add: wp_measure_def)
  qed
qed



lemma worker_alive_le_sum: "i < length pcs \<Longrightarrow> worker_alive (pcs ! i) \<le> sum_list (map worker_alive pcs)"
  by (simp add: member_le_sum_list)

lemma Exited_update:
  "Exited \<in> set (pcs[i := pc]) \<Longrightarrow> pc \<noteq> Exited \<Longrightarrow> Exited \<in> set pcs"
  using set_update_subset_insert[of pcs i pc] by auto

lemma sum_list_replicate_mempty: "sum_list (replicate n ({#} :: 'a multiset)) = {#}"
  by (induction n) simp_all

lemma running_job_member:
  "i < length pcs \<Longrightarrow> pcs ! i = Running job \<Longrightarrow> job \<in># sum_list (map running_job pcs)"
proof (induction pcs arbitrary: i)
  case Nil
  then show ?case by simp
next
  case (Cons pc pcs)
  then show ?case by (cases i) simp_all
qed

lemma wp_inv_running:
  assumes "wp_inv W js p" and "i < length (wp_pcs p)" and "wp_pcs p ! i = Running job"
  shows "job \<in> set js"
proof -
  from assms(1) obtain rest where
    "mset js = mset (wp_completed p) + sum_list (map running_job (wp_pcs p))
                + mset (buf (wp_jobs p)) + mset rest"
    unfolding wp_inv_def by blast
  moreover have "job \<in># sum_list (map running_job (wp_pcs p))"
    using assms(2,3) by (rule running_job_member)
  ultimately have "job \<in># mset js" by simp
  then show ?thesis by simp
qed

lemma wp_inv_init: "wp_inv (nat w) js (NewWorkerPool w (map CallSubmit js @ [CallClose]))"
  by (auto simp: wp_inv_def NewWorkerPool_def make_chan_def sum_list_replicate
      sum_list_replicate_mempty intro!: exI[of _ js])

lemma wp_inv_step:
  assumes inv: "wp_inv W js p" and good: "\<forall>job \<in> set js. job_call job = Job_returns"
    and step: "wp_step a p = Some p'"
  shows "wp_inv W js p'"
proof -
  from inv have np: "\<not> wp_panicked p" and cap: "cap (wp_jobs p) = 100"
    and len: "length (buf (wp_jobs p)) \<le> 100" and W: "length (wp_pcs p) = W"
    and wg: "wp_wg p = sum_list (map worker_alive (wp_pcs p))"
    and ex: "Exited \<in> set (wp_pcs p) \<longrightarrow> closed (wp_jobs p) \<and> buf (wp_jobs p) = []"
    by (simp_all add: wp_inv_def)
  from inv obtain rest where
    ph: "wp_script p = map CallSubmit rest @ [CallClose] \<and> wp_cpc p = Ready
             \<and> \<not> closed (wp_jobs p)
           \<or> wp_script p = [] \<and> rest = [] \<and> closed (wp_jobs p)
             \<and> (wp_cpc p = Ready \<longrightarrow> wp_wg p = 0)"
    and ms: "mset js = mset (wp_completed p) + sum_list (map running_job (wp_pcs p))
                + mset (buf (wp_jobs p)) + mset rest"
    unfolding wp_inv_def by blast
  show ?thesis
  proof (cases a)
    case WP_Caller
    from step[unfolded WP_Caller] show ?thesis
    proof (cases rule: wp_caller_cases)
      case return
      then show ?thesis using np cap len W wg ex ph ms unfolding wp_inv_def by auto
    next
      case (submit job rest')
      from submit(2,3) ph obtain rem where rem: "rest = job # rem"
        "rest' = map CallSubmit rem @ [CallClose]"
        by (cases rest) auto
      have noex: "Exited \<notin> set (wp_pcs p)" using ex submit(3) by blast
      have "mset js = mset (wp_completed p') + sum_list (map running_job (wp_pcs p'))
                + mset (buf (wp_jobs p')) + mset rem"
        using ms rem submit(5) by simp
      then show ?thesis using np cap len W wg noex submit rem unfolding wp_inv_def
        by (intro conjI exI[of _ rem]) auto
    next
      case (submit_panic job rest')
      then show ?thesis using ph by auto
    next
      case (close rest')
      from close(2,3) ph have rem: "rest = []" "rest' = []" by (cases rest; auto)+
      have noex: "Exited \<notin> set (wp_pcs p)" using ex close(3) by blast
      show ?thesis using np cap len W wg noex close rem ms unfolding wp_inv_def
        by (intro conjI exI[of _ "[]"]) auto
    next
      case (close_panic rest')
      then show ?thesis using ph by auto
    qed
  next
    case (WP_Worker i)
    from step[unfolded WP_Worker] show ?thesis
    proof (cases rule: wp_worker_cases)
      case (take job rest')
      have noex: "Exited \<notin> set (wp_pcs p)" using ex take(3) by auto
      then have noex': "Exited \<notin> set (wp_pcs p')" using take(4) Exited_update[of "wp_pcs p" i "Running job"] by auto
      have al: "sum_list (map worker_alive (wp_pcs p')) = sum_list (map worker_alive (wp_pcs p))"
        using sum_list_map_update[OF take(1), of worker_alive "Running job"] take by simp
      have rj: "sum_list (map running_job (wp_pcs p')) = sum_list (map running_job (wp_pcs p)) + {#job#}"
        using sum_list_map_update[OF take(1), of running_job "Running job"] take by simp
      have ms': "mset js = mset (wp_completed p') + sum_list (map running_job (wp_pcs p'))
                + mset (buf (wp_jobs p')) + mset rest"
        using ms rj take by simp
      have ph': "wp_script p' = map CallSubmit rest @ [CallClose] \<and> wp_cpc p' = Ready
             \<and> \<not> closed (wp_jobs p')
           \<or> wp_script p' = [] \<and> rest = [] \<and> closed (wp_jobs p')
             \<and> (wp_cpc p' = Ready \<longrightarrow> wp_wg p' = 0)"
        using ph take by simp
      show ?thesis unfolding wp_inv_def using np cap len W wg al noex' ms' ph' take 
        by (intro conjI exI[of _ rest]) auto
    next
      case exit
      have al: "sum_list (map worker_alive (wp_pcs p')) + 1 = sum_list (map worker_alive (wp_pcs p))"
        using sum_list_map_update[OF exit(1), of worker_alive Exited] exit by simp
      have rj: "sum_list (map running_job (wp_pcs p')) = sum_list (map running_job (wp_pcs p))"
        using sum_list_map_update[OF exit(1), of running_job Exited] exit by simp
      have ms': "mset js = mset (wp_completed p') + sum_list (map running_job (wp_pcs p'))
                + mset (buf (wp_jobs p')) + mset rest"
        using ms rj exit by simp
      have ph': "wp_script p' = [] \<and> rest = [] \<and> closed (wp_jobs p')
             \<and> (wp_cpc p' = Ready \<longrightarrow> wp_wg p' = 0)"
        using ph exit by auto
      show ?thesis unfolding wp_inv_def using np cap len W wg al ms' ph' exit
        by (intro conjI exI[of _ rest]) auto
    next
      case panic
      have "worker_alive (wp_pcs p ! i) \<le> wp_wg p"
        using wg worker_alive_le_sum[OF panic(1)] by simp
      then have False using panic(2,5) by simp
      then show ?thesis ..
    next
      case (finish job)
      have ex': "Exited \<in> set (wp_pcs p') \<Longrightarrow> Exited \<in> set (wp_pcs p)"
        using finish(4) Exited_update[of "wp_pcs p" i Ranging] by auto
      have al: "sum_list (map worker_alive (wp_pcs p')) = sum_list (map worker_alive (wp_pcs p))"
        using sum_list_map_update[OF finish(1), of worker_alive Ranging] finish by simp
      have rj: "sum_list (map running_job (wp_pcs p')) + {#job#} = sum_list (map running_job (wp_pcs p))"
        using sum_list_map_update[OF finish(1), of running_job Ranging] finish by simp
      have ms': "mset js = mset (wp_completed p') + sum_list (map running_job (wp_pcs p'))
                + mset (buf (wp_jobs p')) + mset rest"
        using ms rj[symmetric] finish by simp
      have ph': "wp_script p' = map CallSubmit rest @ [CallClose] \<and> wp_cpc p' = Ready
             \<and> \<not> closed (wp_jobs p')
           \<or> wp_script p' = [] \<and> rest = [] \<and> closed (wp_jobs p')
             \<and> (wp_cpc p' = Ready \<longrightarrow> wp_wg p' = 0)"
        using ph finish by simp
      show ?thesis unfolding wp_inv_def using np cap len W wg al ms' ph' ex ex' finish
        by (intro conjI exI[of _ rest]) auto
    next
      case (job_panic job)
      have "job \<in> set js" using inv job_panic(1,2) by (rule wp_inv_running)
      then have False using good job_panic(3) by auto
      then show ?thesis ..
    qed
  qed
qed


lemma wp_stuck_iff: "wp_stuck p \<longleftrightarrow> (\<forall>a \<in> UNIV. wp_step a p = None)"
proof
  assume st: "wp_stuck p"
  show "\<forall>a \<in> UNIV. wp_step a p = None"
  proof
    fix a :: wp_action
    show "wp_step a p = None"
    proof (cases a)
      case WP_Caller
      then show ?thesis using st by (simp add: wp_stuck_def)
    next
      case (WP_Worker i)
      then show ?thesis using st by (cases "i < length (wp_pcs p)")
          (simp_all add: wp_stuck_def wp_step_def wp_worker_def)
    qed
  qed
next
  assume "\<forall>a \<in> UNIV. wp_step a p = None"
  then show "wp_stuck p" by (simp add: wp_stuck_def)
qed

lemma alive_worker_moves:
  assumes "i < length (wp_pcs p)" and "wp_pcs p ! i \<noteq> Exited" and "\<not> wp_panicked p"
    and "closed (wp_jobs p) \<or> buf (wp_jobs p) \<noteq> []"
    and "\<And>job. wp_pcs p ! i = Running job \<Longrightarrow> job_call job \<noteq> Job_hangs"
  shows "wp_step (WP_Worker i) p \<noteq> None"
  using assms
  by (cases "wp_pcs p ! i"; cases "buf (wp_jobs p)")
     (auto simp: wp_step_def wp_worker_def chan_recv_def split: job_end.split)

lemma wp_stuck_returned:
  assumes inv: "wp_inv W js p" and good: "\<forall>job \<in> set js. job_call job = Job_returns"
    and W: "0 < W" and st: "wp_stuck p"
  shows "wp_returned p"
proof -
  have nh: "job_call job \<noteq> Job_hangs" if "i < length (wp_pcs p)" "wp_pcs p ! i = Running job"
    for i job
    using wp_inv_running[OF inv that] good by auto
  from inv have np: "\<not> wp_panicked p" and cap: "cap (wp_jobs p) = 100"
    and len: "length (wp_pcs p) = W"
    and wg: "wp_wg p = sum_list (map worker_alive (wp_pcs p))"
    and ex: "Exited \<in> set (wp_pcs p) \<longrightarrow> closed (wp_jobs p) \<and> buf (wp_jobs p) = []"
    by (simp_all add: wp_inv_def)
  from inv obtain rest where
    ph: "wp_script p = map CallSubmit rest @ [CallClose] \<and> wp_cpc p = Ready
             \<and> \<not> closed (wp_jobs p)
           \<or> wp_script p = [] \<and> rest = [] \<and> closed (wp_jobs p)
             \<and> (wp_cpc p = Ready \<longrightarrow> wp_wg p = 0)"
    unfolding wp_inv_def by blast
  from st have c: "wp_caller p = None"
    and w: "\<And>i. i < length (wp_pcs p) \<Longrightarrow> wp_step (WP_Worker i) p = None"
    using np by (simp_all add: wp_stuck_def wp_step_def)
  from ph show ?thesis
  proof
    assume a: "wp_script p = map CallSubmit rest @ [CallClose] \<and> wp_cpc p = Ready
             \<and> \<not> closed (wp_jobs p)"
    show ?thesis
    proof (cases rest)
      case Nil
      then have False using a c by (simp add: wp_caller_def Close_jobs_def chan_close_def)
      then show ?thesis ..
    next
      case (Cons job rem)
      then have full: "buf (wp_jobs p) \<noteq> []" using a c cap
        by (auto simp: wp_caller_def Submit_def chan_send_def split: if_split_asm)
      have 0: "0 < length (wp_pcs p)" using len W by simp
      have "wp_pcs p ! 0 \<noteq> Exited" using ex a 0 nth_mem[OF 0] by metis
      from alive_worker_moves[OF 0 this np _ nh[OF 0]] full w[OF 0] have False by simp
      then show ?thesis ..
    qed
  next
    assume a: "wp_script p = [] \<and> rest = [] \<and> closed (wp_jobs p)
             \<and> (wp_cpc p = Ready \<longrightarrow> wp_wg p = 0)"
    show ?thesis
    proof (cases "wp_cpc p")
      case Ready
      then show ?thesis using a np by (simp add: wp_returned_def)
    next
      case InWait
      then have "wp_wg p \<noteq> 0" using c by (simp add: wp_caller_def Close_wait_def split: if_split_asm)
      then have "\<exists>pc \<in> set (wp_pcs p). worker_alive pc \<noteq> 0" using wg by (simp add: sum_list_eq_0_iff)
      then obtain i where i: "i < length (wp_pcs p)" "worker_alive (wp_pcs p ! i) \<noteq> 0"
        by (auto simp: in_set_conv_nth)
      then have "wp_pcs p ! i \<noteq> Exited" by auto
      from alive_worker_moves[OF i(1) this np _ nh[OF i(1)]] a w[OF i(1)] have False by simp
      then show ?thesis ..
    qed
  qed
qed

lemma all_Exited_running: "\<forall>pc \<in> set pcs. pc = Exited \<Longrightarrow> sum_list (map running_job pcs) = {#}"
  by (induction pcs) simp_all

lemma wp_returned_done:
  assumes inv: "wp_inv W js p" and W: "0 < W" and r: "wp_returned p"
  shows "mset (wp_completed p) = mset js \<and> (\<forall>pc \<in> set (wp_pcs p). pc = Exited)
     \<and> buf (wp_jobs p) = [] \<and> closed (wp_jobs p)"
proof -
  from inv obtain rest where
    ph: "wp_script p = map CallSubmit rest @ [CallClose] \<and> wp_cpc p = Ready
             \<and> \<not> closed (wp_jobs p)
           \<or> wp_script p = [] \<and> rest = [] \<and> closed (wp_jobs p)
             \<and> (wp_cpc p = Ready \<longrightarrow> wp_wg p = 0)"
    and ms: "mset js = mset (wp_completed p) + sum_list (map running_job (wp_pcs p))
                + mset (buf (wp_jobs p)) + mset rest"
    unfolding wp_inv_def by blast
  from ph r have a: "rest = []" "closed (wp_jobs p)" "wp_wg p = 0"
    by (auto simp: wp_returned_def)
  from inv a(3) have "\<forall>pc \<in> set (wp_pcs p). worker_alive pc = 0"
    by (simp add: wp_inv_def sum_list_eq_0_iff)
  then have allex: "\<forall>pc \<in> set (wp_pcs p). pc = Exited"
    by (metis worker_alive.elims zero_neq_one)
  have "wp_pcs p \<noteq> []" using inv W by (auto simp: wp_inv_def)
  then have "Exited \<in> set (wp_pcs p)" using allex by (cases "wp_pcs p") auto
  then have e: "buf (wp_jobs p) = []" using inv by (simp add: wp_inv_def)
  show ?thesis using ms a e allex all_Exited_running[OF allex] by simp
qed

lemma wp_inv_run:
  assumes "\<forall>job \<in> set js. job_call job = Job_returns"
    and "run wp_step sched (NewWorkerPool w (map CallSubmit js @ [CallClose])) = Some p"
  shows "wp_inv (nat w) js p"
  using assms(2) wp_inv_init
proof (rule run_invariant)
  fix a t t' assume "wp_inv (nat w) js t" "wp_step a t = Some t'"
  then show "wp_inv (nat w) js t'" using assms(1) wp_inv_step[of "nat w" js t a t'] by simp
qed

lemma sum_list_call_weight: "sum_list (map (call_weight \<circ> CallSubmit) js) = 3 * length js"
  by (induction js) simp_all

text \<open>
  Claim C8 as stated, for every number of workers, fails for a pool without workers:
  \<^verbatim>\<open>NewWorkerPool(0)\<close>, one \<^verbatim>\<open>Submit\<close> of a job that would return, and \<^verbatim>\<open>Close()\<close>. The job is
  queued, \<^verbatim>\<open>close(p.jobs)\<close> succeeds, and \<^verbatim>\<open>p.wg.Wait()\<close> returns at once on the zero
  counter: \<^verbatim>\<open>Close()\<close> has returned, the job is still in the queue and has not run.
\<close>

theorem C8_no_workers_job_never_runs:
  "run wp_step [WP_Caller, WP_Caller, WP_Caller]
     (NewWorkerPool 0 [CallSubmit (Func (7::nat) Job_returns), CallClose])
   = Some \<lparr>wp_workers = 0,
       wp_jobs = \<lparr>buf = [Func 7 Job_returns], cap = 100, closed = True\<rparr>, wp_wg = 0,
       wp_pcs = [], wp_script = [], wp_cpc = Ready, wp_completed = [], wp_panicked = False\<rparr>
   \<and> wp_returned \<lparr>wp_workers = 0,
       wp_jobs = \<lparr>buf = [Func (7::nat) Job_returns], cap = 100, closed = True\<rparr>,
       wp_wg = 0, wp_pcs = [], wp_script = [], wp_cpc = Ready, wp_completed = [],
       wp_panicked = False\<rparr>"
  by (simp add: NewWorkerPool_def make_chan_def wp_step_def wp_caller_def Submit_def
      Close_jobs_def Close_wait_def chan_send_def chan_close_def wp_returned_def)

text \<open>
  Claim C8, amended to pools with at least one worker and to jobs whose calls return
  (no nil func, no panic inside the job, no job that runs forever). The client submits
  the jobs \<open>js\<close> and then calls \<^verbatim>\<open>Close()\<close>. Under every schedule of the client and the
  workers: nothing panics; no job is completed more often than it was submitted; when
  \<^verbatim>\<open>Close()\<close> has returned, the completed jobs are exactly the submitted ones (as a
  multiset: each ran once), every worker has returned, and the queue is closed and empty;
  the only states in which nothing can move are those where \<^verbatim>\<open>Close()\<close> has returned;
  every schedule has at most \<open>3 * length js + W + 2\<close> steps and can be continued until
  \<^verbatim>\<open>Close()\<close> has returned with all jobs run.
\<close>

theorem C8_pool_runs_all_jobs:
  assumes "1 \<le> w" and "\<forall>job \<in> set js. job_call job = Job_returns"
    and "run wp_step sched (NewWorkerPool w (map CallSubmit js @ [CallClose])) = Some p"
  shows "\<not> wp_panicked p
     \<and> mset (wp_completed p) \<subseteq># mset js
     \<and> (wp_returned p \<longrightarrow>
           mset (wp_completed p) = mset js \<and> (\<forall>pc \<in> set (wp_pcs p). pc = Exited)
           \<and> buf (wp_jobs p) = [] \<and> closed (wp_jobs p))
     \<and> (wp_stuck p \<longrightarrow> wp_returned p)
     \<and> length sched \<le> 3 * length js + nat w + 2
     \<and> (\<exists>sched' p'. run wp_step (sched @ sched')
              (NewWorkerPool w (map CallSubmit js @ [CallClose])) = Some p'
            \<and> wp_returned p' \<and> mset (wp_completed p') = mset js)"
proof -
  have W: "0 < nat w" using assms(1) by simp
  note good = assms(2)
  have inv: "wp_inv (nat w) js p" using good assms(3) by (rule wp_inv_run)
  then have np: "\<not> wp_panicked p" by (simp add: wp_inv_def)
  from inv obtain rest where "mset js = mset (wp_completed p)
        + sum_list (map running_job (wp_pcs p)) + mset (buf (wp_jobs p)) + mset rest"
    unfolding wp_inv_def by blast
  then have sub: "mset (wp_completed p) \<subseteq># mset js"
    by (metis mset_subset_eq_add_left subset_mset.add_increasing2 empty_le add.assoc)
  have ret: "wp_returned p \<longrightarrow>
           mset (wp_completed p) = mset js \<and> (\<forall>pc \<in> set (wp_pcs p). pc = Exited)
           \<and> buf (wp_jobs p) = [] \<and> closed (wp_jobs p)"
    using wp_returned_done[OF inv W] by blast
  have st: "wp_stuck p \<longrightarrow> wp_returned p" using wp_stuck_returned[OF inv good W] by blast
  have "length sched + wp_measure p \<le> wp_measure (NewWorkerPool w (map CallSubmit js @ [CallClose]))"
    using assms(3) by (rule run_measure) (rule wp_measure_step)
  moreover have "1 \<le> wp_measure p" using np by (simp add: wp_measure_def)
  moreover have "wp_measure (NewWorkerPool w (map CallSubmit js @ [CallClose]) :: 'a job WorkerPool)
      = 3 * length js + nat w + 3"
    by (simp add: wp_measure_def NewWorkerPool_def make_chan_def sum_list_call_weight
        sum_list_replicate)
  ultimately have len: "length sched \<le> 3 * length js + nat w + 2" by simp
  have "\<exists>sched' p'. set sched' \<subseteq> UNIV \<and> run wp_step sched' p = Some p'
      \<and> (\<forall>a \<in> UNIV. wp_step a p' = None)"
    by (rule run_complete) (rule wp_measure_step)
  then obtain sched' p' where e: "run wp_step sched' p = Some p'" "wp_stuck p'"
    unfolding wp_stuck_iff by blast
  have r': "run wp_step (sched @ sched') (NewWorkerPool w (map CallSubmit js @ [CallClose])) = Some p'"
    using assms(3) e(1) by (simp add: run_append)
  have inv': "wp_inv (nat w) js p'" using good r' by (rule wp_inv_run)
  have ret': "wp_returned p'" using wp_stuck_returned[OF inv' good W e(2)] .
  have "mset (wp_completed p') = mset js" using wp_returned_done[OF inv' W ret'] by simp
  then have ex: "\<exists>sched' p'. run wp_step (sched @ sched')
              (NewWorkerPool w (map CallSubmit js @ [CallClose])) = Some p'
            \<and> wp_returned p' \<and> mset (wp_completed p') = mset js"
    using r' ret' by blast
  show ?thesis using np sub ret st len ex by blast
qed

text \<open>
  Two workers and the jobs 1 and 2, both returning: both are submitted, each worker takes
  one, the queue is closed, the jobs finish (2 before 1), both workers return and
  \<^verbatim>\<open>Close()\<close> returns.
\<close>

theorem C8_pool_runs_all_jobs_witness:
  "(1::int) \<le> 2
   \<and> job_call (Func (1::nat) Job_returns) = Job_returns
   \<and> job_call (Func (2::nat) Job_returns) = Job_returns
   \<and> run wp_step [WP_Caller, WP_Caller, WP_Worker 0, WP_Worker 1, WP_Caller, WP_Worker 1,
        WP_Worker 0, WP_Worker 0, WP_Worker 1, WP_Caller]
       (NewWorkerPool 2
          (map CallSubmit [Func (1::nat) Job_returns, Func 2 Job_returns] @ [CallClose]))
     = Some \<lparr>wp_workers = 2, wp_jobs = \<lparr>buf = [], cap = 100, closed = True\<rparr>, wp_wg = 0,
         wp_pcs = [Exited, Exited], wp_script = [], wp_cpc = Ready,
         wp_completed = [Func 2 Job_returns, Func 1 Job_returns], wp_panicked = False\<rparr>
   \<and> wp_returned \<lparr>wp_workers = 2, wp_jobs = \<lparr>buf = [], cap = 100, closed = True\<rparr>,
         wp_wg = 0, wp_pcs = [Exited, Exited], wp_script = [], wp_cpc = Ready,
         wp_completed = [Func 2 Job_returns, Func (1::nat) Job_returns], wp_panicked = False\<rparr>
   \<and> mset [Func 2 Job_returns, Func (1::nat) Job_returns]
       = mset [Func 1 Job_returns, Func 2 Job_returns]"
proof -
  let ?js = "[Func (1::nat) Job_returns, Func 2 Job_returns]"
  let ?p = "\<lparr>wp_workers = 2, wp_jobs = \<lparr>buf = [], cap = 100, closed = True\<rparr>,
         wp_wg = 0, wp_pcs = [Exited, Exited], wp_script = [], wp_cpc = Ready,
         wp_completed = [Func 2 Job_returns, Func (1::nat) Job_returns], wp_panicked = False\<rparr>"
  have w: "(1::int) \<le> 2" by simp
  have g: "\<forall>job \<in> set ?js. job_call job = Job_returns" by simp
  have r: "run wp_step [WP_Caller, WP_Caller, WP_Worker 0, WP_Worker 1, WP_Caller, WP_Worker 1,
        WP_Worker 0, WP_Worker 0, WP_Worker 1, WP_Caller]
       (NewWorkerPool 2 (map CallSubmit ?js @ [CallClose])) = Some ?p"
    by (simp add: NewWorkerPool_def make_chan_def wp_step_def wp_caller_def wp_worker_def
        Submit_def Close_jobs_def Close_wait_def chan_send_def chan_recv_def chan_close_def
        eval_nat_numeral)
  have ret: "wp_returned ?p" by (simp add: wp_returned_def)
  from C8_pool_runs_all_jobs[OF w g r] ret
  have "mset (wp_completed ?p) = mset ?js" by blast
  then show ?thesis using w r ret by simp
qed
section \<open>Broadcaster: dispatch and Send\<close>

lemma broadcast_open:
  "\<forall>ch \<in> set chs. \<not> closed ch \<Longrightarrow> broadcast val chs = Proceeds (map (offer val) chs)"
  by (induction chs) (auto simp: chan_try_send_def chan_send_def offer_def)

lemma closeAll_open:
  "\<forall>ch \<in> set chs. \<not> closed ch \<Longrightarrow>
   closeAll chs = Proceeds (map (\<lambda>ch. ch\<lparr>closed := True\<rparr>) chs)"
  by (induction chs) (auto simp: chan_close_def)

lemma bc_inv_init: "bc_inv NewBroadcaster"
  by (simp add: bc_inv_def NewBroadcaster_def make_chan_def)

lemma bc_inv_step:
  assumes "bc_inv b" "bc_step a b = Some b'"
  shows "bc_inv b'"
proof (cases a)
  case (BC_Send_input v)
  then show ?thesis using assms
    by (auto simp: bc_inv_def bc_step_def Send_input_def chan_send_def split: if_splits)
next
  case (BC_Send_done v)
  then show ?thesis using assms by (auto simp: bc_step_def Send_done_def split: if_splits)
next
  case BC_run_input
  then show ?thesis using assms
    by (auto simp: bc_inv_def bc_step_def run_input_def chan_recv_def broadcast_open offer_def
        split: if_splits list.splits)
next
  case BC_run_done
  then show ?thesis using assms
    by (auto simp: bc_inv_def bc_step_def run_done_def closeAll_open split: if_splits)
next
  case BC_Subscribe
  then show ?thesis using assms
    by (auto simp: bc_inv_def bc_step_def Subscribe_def make_chan_def split: if_splits)
next
  case BC_Close
  then show ?thesis using assms
    by (auto simp: bc_inv_def bc_step_def Close_def split: if_splits)
next
  case (BC_consume i)
  let ?chs = "bc_subscribers b"
  from assms(2) BC_consume obtain v vs where i: "i < length ?chs" and
    bf: "buf (?chs ! i) = v # vs" and
    b': "b' = b\<lparr>bc_subscribers := ?chs[i := (?chs ! i)\<lparr>buf := vs\<rparr>]\<rparr>"
    by (auto simp: bc_step_def consume_def chan_recv_def split: if_splits list.splits)
  have mem: "?chs ! i \<in> set ?chs" using i by simp
  have sub: "set (?chs[i := (?chs ! i)\<lparr>buf := vs\<rparr>])
      \<subseteq> insert ((?chs ! i)\<lparr>buf := vs\<rparr>) (set ?chs)"
    by (rule set_update_subset_insert)
  have "\<forall>ch \<in> set (bc_subscribers b'). cap ch = 10 \<and> length (buf ch) \<le> 10"
    using assms(1) mem sub bf unfolding b' bc_inv_def by fastforce
  moreover have "bc_run b' = Dispatching \<longrightarrow> (\<forall>ch \<in> set (bc_subscribers b'). \<not> closed ch)"
    using assms(1) mem sub unfolding b' bc_inv_def by fastforce
  ultimately show ?thesis using assms(1) unfolding b' bc_inv_def by simp
qed

lemma bc_inv_run:
  assumes "run bc_step sched NewBroadcaster = Some b"
  shows "bc_inv b"
  using assms bc_inv_init by (rule run_invariant) (rule bc_inv_step)

lemma run_input_dispatch:
  assumes inv: "bc_inv b"
    and "bc_run b = Dispatching" and "buf (bc_input b) = val # rest"
  shows "\<exists>b'. bc_step BC_run_input b = Some b'
     \<and> \<not> bc_panicked b' \<and> bc_run b' = Dispatching \<and> bc_done b' = bc_done b
     \<and> buf (bc_input b') = rest
     \<and> length (bc_subscribers b') = length (bc_subscribers b)
     \<and> (\<forall>i < length (bc_subscribers b).
           bc_subscribers b' ! i =
             (if length (buf (bc_subscribers b ! i)) < 10
              then (bc_subscribers b ! i)\<lparr>buf := buf (bc_subscribers b ! i) @ [val]\<rparr>
              else bc_subscribers b ! i))
     \<and> (\<forall>v. \<not> Send_blocks v b')"
proof -
  let ?b' = "b\<lparr>bc_subscribers := map (offer val) (bc_subscribers b),
               bc_input := (bc_input b)\<lparr>buf := rest\<rparr>\<rparr>"
  have op: "\<forall>ch \<in> set (bc_subscribers b). \<not> closed ch"
    using inv assms(2) by (simp add: bc_inv_def)
  have r: "run_input b = Some ?b'" using assms(2,3) op
    by (simp add: run_input_def chan_recv_def broadcast_open)
  have caps: "\<forall>i < length (bc_subscribers b). cap (bc_subscribers b ! i) = 10"
    using inv by (simp add: bc_inv_def)
  have "length rest < 10" using inv assms(3) by (simp add: bc_inv_def)
  then have sb: "\<not> Send_blocks v ?b'" for v using inv
    by (simp add: Send_blocks_def Send_input_def chan_send_def bc_inv_def)
  show ?thesis using r inv caps sb assms(2)
    by (simp add: bc_step_def bc_inv_def offer_def)
qed

text \<open>
  Claim C7. In every reachable broadcaster state in which \<^verbatim>\<open>run()\<close> is in its loop and the
  input channel holds a value, with any number of subscribers in any state: the dispatch
  of that value is enabled and completes in one step (no send in it can block); every
  subscriber whose channel has room gets the value appended, and a subscriber whose
  channel is full keeps its channel as it was, so what one subscriber receives does not
  depend on any other subscriber's channel; the value leaves the input channel whatever
  the subscribers' channels hold, and after the dispatch a \<^verbatim>\<open>Send\<close> does not block.
\<close>

theorem C7_dispatch_drops_per_subscriber:
  assumes "run bc_step sched NewBroadcaster = Some b"
    and "bc_run b = Dispatching" and "buf (bc_input b) = val # rest"
  shows "\<exists>b'. bc_step BC_run_input b = Some b'
     \<and> \<not> bc_panicked b' \<and> bc_run b' = Dispatching \<and> bc_done b' = bc_done b
     \<and> buf (bc_input b') = rest
     \<and> length (bc_subscribers b') = length (bc_subscribers b)
     \<and> (\<forall>i < length (bc_subscribers b).
           bc_subscribers b' ! i =
             (if length (buf (bc_subscribers b ! i)) < 10
              then (bc_subscribers b ! i)\<lparr>buf := buf (bc_subscribers b ! i) @ [val]\<rparr>
              else bc_subscribers b ! i))
     \<and> (\<forall>v. \<not> Send_blocks v b')"
  using bc_inv_run[OF assms(1)] assms(2,3) by (rule run_input_dispatch)

text \<open>
  Two subscribers. Ten values are sent and dispatched, the second subscriber reads one
  value, and an eleventh value is sent: the first subscriber's channel is full, the
  second has room. The dispatch of 11 leaves the first channel as it is and appends 11 to
  the second.
\<close>

theorem C7_dispatch_drops_per_subscriber_witness:
  "run bc_step
     [BC_Subscribe, BC_Subscribe,
      BC_Send_input 1, BC_run_input, BC_Send_input 2, BC_run_input,
      BC_Send_input 3, BC_run_input, BC_Send_input 4, BC_run_input,
      BC_Send_input 5, BC_run_input, BC_Send_input 6, BC_run_input,
      BC_Send_input 7, BC_run_input, BC_Send_input 8, BC_run_input,
      BC_Send_input 9, BC_run_input, BC_Send_input 10, BC_run_input,
      BC_consume 1, BC_Send_input 11] NewBroadcaster
   = Some \<lparr>bc_subscribers =
        [\<lparr>buf = [1, 2, 3, 4, 5, 6, 7, 8, 9, 10 :: nat], cap = 10, closed = False\<rparr>,
         \<lparr>buf = [2, 3, 4, 5, 6, 7, 8, 9, 10], cap = 10, closed = False\<rparr>],
       bc_input = \<lparr>buf = [11], cap = 10, closed = False\<rparr>, bc_done = False,
       bc_run = Dispatching, bc_panicked = False\<rparr>
   \<and> bc_step BC_run_input
       \<lparr>bc_subscribers =
        [\<lparr>buf = [1, 2, 3, 4, 5, 6, 7, 8, 9, 10 :: nat], cap = 10, closed = False\<rparr>,
         \<lparr>buf = [2, 3, 4, 5, 6, 7, 8, 9, 10], cap = 10, closed = False\<rparr>],
       bc_input = \<lparr>buf = [11], cap = 10, closed = False\<rparr>, bc_done = False,
       bc_run = Dispatching, bc_panicked = False\<rparr>
   = Some \<lparr>bc_subscribers =
        [\<lparr>buf = [1, 2, 3, 4, 5, 6, 7, 8, 9, 10 :: nat], cap = 10, closed = False\<rparr>,
         \<lparr>buf = [2, 3, 4, 5, 6, 7, 8, 9, 10, 11], cap = 10, closed = False\<rparr>],
       bc_input = \<lparr>buf = [], cap = 10, closed = False\<rparr>, bc_done = False,
       bc_run = Dispatching, bc_panicked = False\<rparr>"
proof -
  let ?b = "\<lparr>bc_subscribers =
        [\<lparr>buf = [1, 2, 3, 4, 5, 6, 7, 8, 9, 10 :: nat], cap = 10, closed = False\<rparr>,
         \<lparr>buf = [2, 3, 4, 5, 6, 7, 8, 9, 10], cap = 10, closed = False\<rparr>],
       bc_input = \<lparr>buf = [11], cap = 10, closed = False\<rparr>, bc_done = False,
       bc_run = Dispatching, bc_panicked = False\<rparr>"
  have r: "run bc_step
     [BC_Subscribe, BC_Subscribe,
      BC_Send_input 1, BC_run_input, BC_Send_input 2, BC_run_input,
      BC_Send_input 3, BC_run_input, BC_Send_input 4, BC_run_input,
      BC_Send_input 5, BC_run_input, BC_Send_input 6, BC_run_input,
      BC_Send_input 7, BC_run_input, BC_Send_input 8, BC_run_input,
      BC_Send_input 9, BC_run_input, BC_Send_input 10, BC_run_input,
      BC_consume 1, BC_Send_input 11] NewBroadcaster = Some ?b"
    by (simp add: NewBroadcaster_def make_chan_def bc_step_def Subscribe_def Send_input_def
        run_input_def consume_def chan_send_def chan_try_send_def chan_recv_def)
  have "bc_run ?b = Dispatching" and "buf (bc_input ?b) = 11 # []" by simp_all
  from C7_dispatch_drops_per_subscriber[OF r this] obtain b' where
    s: "bc_step BC_run_input ?b = Some b'" by blast
  then have "b' = \<lparr>bc_subscribers =
        [\<lparr>buf = [1, 2, 3, 4, 5, 6, 7, 8, 9, 10 :: nat], cap = 10, closed = False\<rparr>,
         \<lparr>buf = [2, 3, 4, 5, 6, 7, 8, 9, 10, 11], cap = 10, closed = False\<rparr>],
       bc_input = \<lparr>buf = [], cap = 10, closed = False\<rparr>, bc_done = False,
       bc_run = Dispatching, bc_panicked = False\<rparr>"
    by (simp add: bc_step_def run_input_def chan_try_send_def chan_send_def chan_recv_def)
  with s r show ?thesis by simp
qed

text \<open>
  Claim C6 as stated, that \<^verbatim>\<open>Send\<close> never blocks in any broadcaster state, fails: after ten
  values have been sent to a fresh broadcaster and \<^verbatim>\<open>run()\<close> has not yet received one, the
  input channel is full and the broadcaster is running, so neither case of the \<^verbatim>\<open>select\<close>
  in \<^verbatim>\<open>Send\<close> is ready.
\<close>

theorem C6_send_blocks_on_full_input:
  "run bc_step
     [BC_Send_input 1, BC_Send_input 2, BC_Send_input 3, BC_Send_input 4, BC_Send_input 5,
      BC_Send_input 6, BC_Send_input 7, BC_Send_input 8, BC_Send_input 9, BC_Send_input 10]
     NewBroadcaster
   = Some \<lparr>bc_subscribers = [],
       bc_input = \<lparr>buf = [1, 2, 3, 4, 5, 6, 7, 8, 9, 10 :: nat], cap = 10, closed = False\<rparr>,
       bc_done = False, bc_run = Dispatching, bc_panicked = False\<rparr>
   \<and> Send_blocks 11 \<lparr>bc_subscribers = [],
       bc_input = \<lparr>buf = [1, 2, 3, 4, 5, 6, 7, 8, 9, 10 :: nat], cap = 10, closed = False\<rparr>,
       bc_done = False, bc_run = Dispatching, bc_panicked = False\<rparr>"
  by (simp add: NewBroadcaster_def make_chan_def bc_step_def Send_input_def Send_done_def
      Send_blocks_def chan_send_def)

text \<open>
  Claim C6, amended. In every reachable broadcaster state: while the broadcaster is
  running and its input channel has room, \<^verbatim>\<open>Send\<close> enqueues the value there (the only
  ready case); once \<^verbatim>\<open>cancel()\<close> has been called \<^verbatim>\<open>Send\<close> never blocks, since the case that
  returns without enqueuing is ready (the enqueuing case is ready as well while there is
  room); \<^verbatim>\<open>Send\<close> blocks exactly while the broadcaster is running and the input channel
  holds 10 values, and then the next receive of \<^verbatim>\<open>run()\<close> is enabled and unblocks it; and
  no case of \<^verbatim>\<open>Send\<close> panics or reports an error.
\<close>

theorem C6_send_amended:
  assumes "run bc_step sched NewBroadcaster = Some b"
  shows "(\<not> bc_done b \<and> length (buf (bc_input b)) < 10 \<longrightarrow>
            Send_input val b = Some (b\<lparr>bc_input := (bc_input b)\<lparr>buf := buf (bc_input b) @ [val]\<rparr>\<rparr>)
            \<and> Send_done val b = None)
     \<and> (bc_done b \<longrightarrow>
            Send_done val b = Some b \<and> \<not> Send_blocks val b
            \<and> (Send_input val b = None \<or>
               Send_input val b
                 = Some (b\<lparr>bc_input := (bc_input b)\<lparr>buf := buf (bc_input b) @ [val]\<rparr>\<rparr>)))
     \<and> (Send_blocks val b \<longleftrightarrow> \<not> bc_done b \<and> length (buf (bc_input b)) = 10)
     \<and> (Send_blocks val b \<longrightarrow>
            (\<exists>b'. bc_step BC_run_input b = Some b' \<and> \<not> Send_blocks val b'))
     \<and> (\<forall>b'. Send_input val b = Some b' \<or> Send_done val b = Some b' \<longrightarrow> \<not> bc_panicked b')"
proof -
  have inv: "bc_inv b" using assms by (rule bc_inv_run)
  have a: "\<not> bc_done b \<and> length (buf (bc_input b)) < 10 \<longrightarrow>
            Send_input val b = Some (b\<lparr>bc_input := (bc_input b)\<lparr>buf := buf (bc_input b) @ [val]\<rparr>\<rparr>)
            \<and> Send_done val b = None"
    using inv by (simp add: bc_inv_def Send_input_def Send_done_def chan_send_def)
  have b: "bc_done b \<longrightarrow>
            Send_done val b = Some b \<and> \<not> Send_blocks val b
            \<and> (Send_input val b = None \<or>
               Send_input val b
                 = Some (b\<lparr>bc_input := (bc_input b)\<lparr>buf := buf (bc_input b) @ [val]\<rparr>\<rparr>))"
    using inv by (simp add: bc_inv_def Send_input_def Send_done_def Send_blocks_def chan_send_def)
  have c: "Send_blocks val b \<longleftrightarrow> \<not> bc_done b \<and> length (buf (bc_input b)) = 10"
    using inv by (auto simp: bc_inv_def Send_input_def Send_done_def Send_blocks_def
        chan_send_def split: if_splits)
  have d: "\<exists>b'. bc_step BC_run_input b = Some b' \<and> \<not> Send_blocks val b'" if "Send_blocks val b"
  proof -
    from that c have nd: "\<not> bc_done b" and full: "length (buf (bc_input b)) = 10" by simp_all
    from nd inv have disp: "bc_run b = Dispatching"
      by (cases "bc_run b") (simp_all add: bc_inv_def)
    from full obtain v rest where vr: "buf (bc_input b) = v # rest"
      by (cases "buf (bc_input b)") simp_all
    from run_input_dispatch[OF inv disp vr] show ?thesis by blast
  qed
  have e: "\<forall>b'. Send_input val b = Some b' \<or> Send_done val b = Some b' \<longrightarrow> \<not> bc_panicked b'"
    using inv by (auto simp: bc_inv_def Send_input_def Send_done_def chan_send_def
        split: if_splits)
  show ?thesis using a b c d e by blast
qed

text \<open>
  Three reachable states: the fresh broadcaster, where \<^verbatim>\<open>Send\<close> enqueues; the broadcaster
  after \<^verbatim>\<open>Close()\<close>, where \<^verbatim>\<open>Send\<close> returns without blocking; and the broadcaster after ten
  sends, where \<^verbatim>\<open>Send\<close> blocks until \<^verbatim>\<open>run()\<close> receives a value.
\<close>

theorem C6_send_amended_witness:
  "Send_input (1::nat) NewBroadcaster
     = Some \<lparr>bc_subscribers = [], bc_input = \<lparr>buf = [1], cap = 10, closed = False\<rparr>,
         bc_done = False, bc_run = Dispatching, bc_panicked = False\<rparr>
   \<and> Send_done (1::nat) NewBroadcaster = None
   \<and> run bc_step [BC_Close] NewBroadcaster = Some (Close NewBroadcaster :: nat Broadcaster)
   \<and> Send_done (1::nat) (Close NewBroadcaster) = Some (Close NewBroadcaster)
   \<and> \<not> Send_blocks (1::nat) (Close NewBroadcaster)
   \<and> Send_blocks 11 \<lparr>bc_subscribers = [],
       bc_input = \<lparr>buf = [1, 2, 3, 4, 5, 6, 7, 8, 9, 10 :: nat], cap = 10, closed = False\<rparr>,
       bc_done = False, bc_run = Dispatching, bc_panicked = False\<rparr>
   \<and> (\<exists>b'. bc_step BC_run_input \<lparr>bc_subscribers = [],
       bc_input = \<lparr>buf = [1, 2, 3, 4, 5, 6, 7, 8, 9, 10 :: nat], cap = 10, closed = False\<rparr>,
       bc_done = False, bc_run = Dispatching, bc_panicked = False\<rparr> = Some b'
       \<and> \<not> Send_blocks 11 b')"
proof -
  let ?full = "\<lparr>bc_subscribers = [],
       bc_input = \<lparr>buf = [1, 2, 3, 4, 5, 6, 7, 8, 9, 10 :: nat], cap = 10, closed = False\<rparr>,
       bc_done = False, bc_run = Dispatching, bc_panicked = False\<rparr>"
  have r0: "run bc_step [] NewBroadcaster = Some (NewBroadcaster :: nat Broadcaster)" by simp
  have r1: "run bc_step [BC_Close] NewBroadcaster = Some (Close NewBroadcaster :: nat Broadcaster)"
    by (simp add: bc_step_def NewBroadcaster_def)
  have r2: "run bc_step
     [BC_Send_input 1, BC_Send_input 2, BC_Send_input 3, BC_Send_input 4, BC_Send_input 5,
      BC_Send_input 6, BC_Send_input 7, BC_Send_input 8, BC_Send_input 9, BC_Send_input 10]
     NewBroadcaster = Some ?full"
    by (simp add: NewBroadcaster_def make_chan_def bc_step_def Send_input_def chan_send_def)
  have h0: "\<not> bc_done (NewBroadcaster :: nat Broadcaster)
      \<and> length (buf (bc_input (NewBroadcaster :: nat Broadcaster))) < 10"
    by (simp add: NewBroadcaster_def make_chan_def)
  have h1: "bc_done (Close NewBroadcaster :: nat Broadcaster)" by (simp add: Close_def)
  have h2: "\<not> bc_done ?full \<and> length (buf (bc_input ?full)) = 10" by simp
  from C6_send_amended[OF r0, of 1] h0
  have a: "Send_input (1::nat) NewBroadcaster
      = Some (NewBroadcaster\<lparr>bc_input := (bc_input NewBroadcaster)\<lparr>buf := buf (bc_input NewBroadcaster) @ [1]\<rparr>\<rparr>)
     \<and> Send_done (1::nat) NewBroadcaster = None"
    by blast
  from C6_send_amended[OF r1, of 1] h1
  have b: "Send_done (1::nat) (Close NewBroadcaster) = Some (Close NewBroadcaster)
     \<and> \<not> Send_blocks (1::nat) (Close NewBroadcaster)"
    by blast
  from C6_send_amended[OF r2, of 11] h2
  have c: "Send_blocks 11 ?full
     \<and> (\<exists>b'. bc_step BC_run_input ?full = Some b' \<and> \<not> Send_blocks 11 b')"
    by blast
  from a have a': "Send_input (1::nat) NewBroadcaster
     = Some \<lparr>bc_subscribers = [], bc_input = \<lparr>buf = [1], cap = 10, closed = False\<rparr>,
         bc_done = False, bc_run = Dispatching, bc_panicked = False\<rparr>
     \<and> Send_done (1::nat) NewBroadcaster = None"
    by (simp add: NewBroadcaster_def make_chan_def)
  show ?thesis using a' b c r1 by simp
qed

section \<open>Pipeline: order, progress and termination\<close>

lemma pl_measure_step: "pl_step f a s = Some s' \<Longrightarrow> pl_measure s' < pl_measure s"
  by (cases a; auto split: if_split_asm list.split_asm stage_pc.split_asm)
     (simp_all add: pl_measure_def)

lemma pl_ctl_inv_init: "pl_ctl_inv (pl_init vs)"
  by (simp add: pl_ctl_inv_def pl_init_def)

lemma pl_ctl_inv_step: "pl_ctl_inv s \<Longrightarrow> pl_step f a s = Some s' \<Longrightarrow> pl_ctl_inv s'"
  by (cases a) (auto simp: pl_ctl_inv_def split: if_splits list.splits stage_pc.splits)

lemma pl_data_inv_init: "pl_data_inv f vs (pl_init vs)"
  by (simp add: pl_data_inv_def pl_init_def)

lemma pl_data_inv_step:
  "pl_data_inv f vs s \<Longrightarrow> a \<noteq> PL_Cancel \<Longrightarrow> pl_step f a s = Some s' \<Longrightarrow> pl_data_inv f vs s'"
  by (cases a) (auto simp: pl_data_inv_def split: if_splits list.splits stage_pc.splits)

lemma pl_stuck_returned: "pl_ctl_inv s \<Longrightarrow> pl_stuck f s \<Longrightarrow> pl_all_returned s"
  by (cases "pl_stage s"; cases "pl_values s")
     (auto simp: pl_ctl_inv_def pl_stuck_def pl_all_returned_def split: if_splits)

lemma pl_stuck_iff: "pl_stuck f s \<longleftrightarrow> (\<forall>a \<in> - {PL_Cancel}. pl_step f a s = None)"
proof
  assume st: "pl_stuck f s"
  show "\<forall>a \<in> - {PL_Cancel}. pl_step f a s = None"
  proof
    fix a :: pl_action assume "a \<in> - {PL_Cancel}"
    then show "pl_step f a s = None" using st unfolding pl_stuck_def
      by (cases a) (simp_all del: pl_step.simps)
  qed
next
  assume "\<forall>a \<in> - {PL_Cancel}. pl_step f a s = None"
  then show "pl_stuck f s" unfolding pl_stuck_def by (simp del: pl_step.simps)
qed

lemma pl_ctl_inv_run:
  assumes "run (pl_step f) sched (pl_init vs) = Some s"
  shows "pl_ctl_inv s"
  using assms pl_ctl_inv_init by (rule run_invariant) (rule pl_ctl_inv_step)

lemma pl_data_inv_run:
  assumes "PL_Cancel \<notin> set sched" and "run (pl_step f) sched (pl_init vs) = Some s"
  shows "pl_data_inv f vs s"
  using assms(2) pl_data_inv_init
proof (rule run_invariant)
  fix a t t' assume "a \<in> set sched" "pl_data_inv f vs t" "pl_step f a t = Some t'"
  then show "pl_data_inv f vs t'" using assms(1) pl_data_inv_step[of f vs t a t'] by auto
qed

text \<open>
  Claim C1. For every input list and every transform \<open>f\<close>, under every schedule in which
  the context is not cancelled: what the consumer has collected is at every moment
  \<open>f\<close> mapped over a prefix of the input, in order; when the consumer's loop has ended, and
  whenever no goroutine can move, it is \<open>f\<close> mapped over the whole input (same length,
  element by element) and all three goroutines have returned, the output closed;
  every such schedule has at most \<open>2 * length values + 3\<close> steps, and each can be
  continued to that end.
\<close>

theorem C1_stage_maps_in_order:
  assumes "PL_Cancel \<notin> set sched" and "run (pl_step f) sched (pl_init vs) = Some s"
  shows "(\<exists>n \<le> length vs. pl_collected s = map f (take n vs))
     \<and> (pl_finished s \<longrightarrow> pl_collected s = map f vs)
     \<and> (pl_stuck f s \<longrightarrow> pl_all_returned s \<and> pl_collected s = map f vs)
     \<and> length sched \<le> 2 * length vs + 3
     \<and> (\<exists>sched' s'. PL_Cancel \<notin> set sched' 
            \<and> run (pl_step f) (sched @ sched') (pl_init vs) = Some s'
            \<and> pl_all_returned s' \<and> pl_collected s' = map f vs)"
proof -
  have ctl: "pl_ctl_inv s" using assms(2) by (rule pl_ctl_inv_run)
  have dat: "pl_data_inv f vs s" using assms by (rule pl_data_inv_run)
  from dat obtain sent where sent: "vs = sent @ stage_item (pl_stage s) @ pl_values s"
    "pl_collected s = map f sent" by (auto simp: pl_data_inv_def)
  have a: "\<exists>n \<le> length vs. pl_collected s = map f (take n vs)"
  proof -
    have "length sent \<le> length vs \<and> pl_collected s = map f (take (length sent) vs)"
      using sent by (metis append_eq_conv_conj le_add1 length_append) 
    then show ?thesis by blast
  qed
  have fin: "pl_collected s = map f vs" if "pl_finished s"
  proof -
    from that ctl have "pl_stage s = StageReturned" by (simp add: pl_ctl_inv_def)
    then show ?thesis using dat sent by (simp add: pl_data_inv_def)
  qed
  have st: "pl_all_returned s \<and> pl_collected s = map f vs" if "pl_stuck f s"
    using pl_stuck_returned[OF ctl that] fin by (simp add: pl_all_returned_def)
  have "length sched + pl_measure s \<le> pl_measure (pl_init vs)"
    using assms(2) by (rule run_measure) (rule pl_measure_step)
  moreover have "1 \<le> pl_measure s" using dat by (simp add: pl_data_inv_def pl_measure_def)
  ultimately have len: "length sched \<le> 2 * length vs + 3"
    by (simp add: pl_measure_def pl_init_def)
  have "\<exists>sched' s'. set sched' \<subseteq> - {PL_Cancel} \<and> run (pl_step f) sched' s = Some s'
      \<and> (\<forall>a \<in> - {PL_Cancel}. pl_step f a s' = None)"
    by (rule run_complete) (rule pl_measure_step)
  then obtain sched' s' where c: "set sched' \<subseteq> - {PL_Cancel}" "run (pl_step f) sched' s = Some s'"
      "pl_stuck f s'" unfolding pl_stuck_iff by blast
  have r': "run (pl_step f) (sched @ sched') (pl_init vs) = Some s'"
    using assms(2) c(2) by (simp add: run_append)
  have nc: "PL_Cancel \<notin> set (sched @ sched')" using assms(1) c(1) by auto
  have ctl': "pl_ctl_inv s'" using r' by (rule pl_ctl_inv_run)
  have dat': "pl_data_inv f vs s'" using nc r' by (rule pl_data_inv_run)
  have ret': "pl_all_returned s'" using pl_stuck_returned[OF ctl' c(3)] .
  then have "pl_collected s' = map f vs" using dat' 
    by (auto simp: pl_data_inv_def pl_all_returned_def)
  then have e: "\<exists>sched' s'. PL_Cancel \<notin> set sched' 
            \<and> run (pl_step f) (sched @ sched') (pl_init vs) = Some s'
            \<and> pl_all_returned s' \<and> pl_collected s' = map f vs"
    using c(1) r' ret' by blast
  show ?thesis using a fin st len e by blast
qed

text \<open>
  The repository's example: \<^verbatim>\<open>Generator(ctx, 1, 2, 3, 4, 5)\<close> through \<^verbatim>\<open>SafePipeline\<close>
  (\<^verbatim>\<open>item * 2\<close>), collected: \<open>[2, 4, 6, 8, 10]\<close>, after the 13 steps of the one schedule
  these three goroutines have when nothing is cancelled.
\<close>

theorem C1_stage_maps_in_order_witness:
  "PL_Cancel \<notin> set [PL_Gen_send, PL_Stage_send, PL_Gen_send, PL_Stage_send, PL_Gen_send,
       PL_Stage_send, PL_Gen_send, PL_Stage_send, PL_Gen_send, PL_Stage_send, PL_Gen_return,
       PL_Stage_return, PL_Consumer_end]
   \<and> run (pl_step SafePipeline_f)
       [PL_Gen_send, PL_Stage_send, PL_Gen_send, PL_Stage_send, PL_Gen_send,
        PL_Stage_send, PL_Gen_send, PL_Stage_send, PL_Gen_send, PL_Stage_send, PL_Gen_return,
        PL_Stage_return, PL_Consumer_end] (pl_init [1, 2, 3, 4, 5])
     = Some \<lparr>pl_done = False, pl_values = [], pl_ch_closed = True, pl_stage = StageReturned,
         pl_collected = [2, 4, 6, 8, 10], pl_finished = True\<rparr>
   \<and> pl_stuck SafePipeline_f
       \<lparr>pl_done = False, pl_values = [], pl_ch_closed = True, pl_stage = StageReturned,
         pl_collected = [2, 4, 6, 8, 10], pl_finished = True\<rparr>
   \<and> map SafePipeline_f [1, 2, 3, 4, 5] = [2, 4, 6, 8, 10]
   \<and> pl_all_returned
       \<lparr>pl_done = False, pl_values = [], pl_ch_closed = True, pl_stage = StageReturned,
         pl_collected = [2, 4, 6, 8, 10 :: go_int], pl_finished = True\<rparr>"
proof -
  let ?sched = "[PL_Gen_send, PL_Stage_send, PL_Gen_send, PL_Stage_send, PL_Gen_send,
       PL_Stage_send, PL_Gen_send, PL_Stage_send, PL_Gen_send, PL_Stage_send, PL_Gen_return,
       PL_Stage_return, PL_Consumer_end]"
  let ?s = "\<lparr>pl_done = False, pl_values = [], pl_ch_closed = True, pl_stage = StageReturned,
         pl_collected = [2, 4, 6, 8, 10 :: go_int], pl_finished = True\<rparr>"
  have n: "PL_Cancel \<notin> set ?sched" by simp
  have r: "run (pl_step SafePipeline_f) ?sched (pl_init [1, 2, 3, 4, 5]) = Some ?s"
    by (simp add: pl_init_def SafePipeline_f_def)
  have st: "pl_stuck SafePipeline_f ?s" by (simp add: pl_stuck_def)
  from C1_stage_maps_in_order[OF n r] st
  have "pl_all_returned ?s \<and> pl_collected ?s = map SafePipeline_f [1, 2, 3, 4, 5]" by blast
  then show ?thesis using n r st by simp
qed

section \<open>Tee: both outputs equal the input\<close>

lemma te_measure_step: "te_step a s = Some s' \<Longrightarrow> te_measure s' < te_measure s"
  by (cases a; auto split: if_split_asm list.split_asm tee_pc.split_asm)
     (simp_all add: te_measure_def)

lemma te_ctl_inv_init: "te_ctl_inv (te_init vs)"
  by (simp add: te_ctl_inv_def te_init_def)

lemma te_ctl_inv_step: "te_ctl_inv s \<Longrightarrow> te_step a s = Some s' \<Longrightarrow> te_ctl_inv s'"
  by (cases a; auto split: if_split_asm list.split_asm tee_pc.split_asm)
     (auto simp: te_ctl_inv_def split: if_split_asm)

lemma te_data_inv_init: "te_data_inv vs (te_init vs)"
  by (simp add: te_data_inv_def te_init_def)

lemma te_data_inv_step:
  "te_data_inv vs s \<Longrightarrow> a \<noteq> TE_Cancel \<Longrightarrow> te_step a s = Some s' \<Longrightarrow> te_data_inv vs s'"
  by (cases a; auto split: if_split_asm list.split_asm tee_pc.split_asm)
     (auto simp: te_data_inv_def)

lemma te_stuck_returned: "te_ctl_inv s \<Longrightarrow> te_stuck s \<Longrightarrow> te_all_returned s"
  by (cases "te_pc s"; cases "te_values s")
     (auto simp: te_ctl_inv_def te_stuck_def te_all_returned_def split: if_split_asm)

lemma te_stuck_iff: "te_stuck s \<longleftrightarrow> (\<forall>a \<in> - {TE_Cancel}. te_step a s = None)"
proof
  assume st: "te_stuck s"
  show "\<forall>a \<in> - {TE_Cancel}. te_step a s = None"
  proof
    fix a :: te_action assume "a \<in> - {TE_Cancel}"
    then show "te_step a s = None" using st unfolding te_stuck_def
      by (cases a) (simp_all del: te_step.simps)
  qed
next
  assume "\<forall>a \<in> - {TE_Cancel}. te_step a s = None"
  then show "te_stuck s" unfolding te_stuck_def by (simp del: te_step.simps)
qed


lemma te_ctl_inv_run:
  assumes "run te_step sched (te_init vs) = Some s"
  shows "te_ctl_inv s"
  using assms te_ctl_inv_init by (rule run_invariant) (rule te_ctl_inv_step)

lemma te_data_inv_run:
  assumes "TE_Cancel \<notin> set sched" and "run te_step sched (te_init vs) = Some s"
  shows "te_data_inv vs s"
  using assms(2) te_data_inv_init
proof (rule run_invariant)
  fix a t t' assume "a \<in> set sched" "te_data_inv vs t" "te_step a t = Some t'"
  then show "te_data_inv vs t'" using assms(1) te_data_inv_step[of vs t a t'] by auto
qed

lemma te_leaving_outputs:
  assumes "te_data_inv vs s" and "tee_leaving (te_pc s)"
  shows "te_in_closed s \<and> te_out1 s = vs \<and> te_out2 s = vs"
  using assms by (cases "te_pc s") (auto simp: te_data_inv_def)

text \<open>
  Claim C4. For every input list, under every schedule in which the context is not
  cancelled: what the second consumer has received is a prefix of the input and the
  first consumer has received the same, or one value more (the value \<^verbatim>\<open>Tee\<close> is about to
  send to the second); \<^verbatim>\<open>close(ch1)\<close> and \<^verbatim>\<open>close(ch2)\<close> are each executed at most once,
  \<^verbatim>\<open>ch1\<close> only after \<^verbatim>\<open>ch2\<close>, with no other step of \<^verbatim>\<open>Tee\<close> in between, and only when the
  input is closed and both outputs have been given the whole input; whenever no
  goroutine can move, both consumers have exactly the input, both outputs are closed
  (each once) and every goroutine has returned; every such schedule has at most
  \<open>3 * length values + 6\<close> steps and can be continued to that end.
\<close>

theorem C4_tee_copies_input:
  assumes "TE_Cancel \<notin> set sched" and "run te_step sched (te_init vs) = Some s"
  shows "(\<exists>n \<le> length vs. te_out2 s = take n vs
            \<and> (te_out1 s = take n vs \<or> te_out1 s = take (Suc n) vs))
     \<and> te_closes1 s \<le> te_closes2 s \<and> te_closes2 s \<le> 1
     \<and> (0 < te_closes2 s \<longrightarrow>
           te_in_closed s \<and> te_out1 s = vs \<and> te_out2 s = vs
           \<and> (te_pc s = TeeClosing1 \<or> te_pc s = TeeReturned))
     \<and> (te_stuck s \<longrightarrow>
           te_all_returned s \<and> te_out1 s = vs \<and> te_out2 s = vs
           \<and> te_closes1 s = 1 \<and> te_closes2 s = 1)
     \<and> length sched \<le> 3 * length vs + 6
     \<and> (\<exists>sched' s'. TE_Cancel \<notin> set sched'
            \<and> run te_step (sched @ sched') (te_init vs) = Some s'
            \<and> te_all_returned s' \<and> te_out1 s' = vs \<and> te_out2 s' = vs
            \<and> te_closes1 s' = 1 \<and> te_closes2 s' = 1)"
proof -
  have ctl: "te_ctl_inv s" using assms(2) by (rule te_ctl_inv_run)
  have dat: "te_data_inv vs s" using assms by (rule te_data_inv_run)
  have a: "\<exists>n \<le> length vs. te_out2 s = take n vs
            \<and> (te_out1 s = take n vs \<or> te_out1 s = take (Suc n) vs)"
  proof -
    let ?n = "length (te_out2 s)"
    have v: "vs = te_out2 s @ tee_item (te_pc s) @ te_values s"
      and o: "te_out1 s = te_out2 s @ tee_given1 (te_pc s)"
      using dat by (simp_all add: te_data_inv_def)
    have "length vs = ?n + length (tee_item (te_pc s) @ te_values s)"
      using v by (metis length_append)
    then have 1: "?n \<le> length vs" by simp
    have 2: "te_out2 s = take ?n vs" using v by (metis append_eq_conv_conj)
    have 3: "te_out1 s = take ?n vs \<or> te_out1 s = take (Suc ?n) vs"
    proof (cases "te_pc s")
      case (TeeSelect2 val)
      then have "vs = (te_out2 s @ [val]) @ te_values s" using v by simp
      then have "take (Suc ?n) vs = te_out2 s @ [val]"
        by (metis append_eq_conv_conj length_append_singleton)
      then show ?thesis using o TeeSelect2 by simp
    qed (use o 2 in simp_all)
    show ?thesis using 1 2 3 by blast
  qed
  have b: "te_closes1 s \<le> te_closes2 s \<and> te_closes2 s \<le> 1"
    using ctl by (simp add: te_ctl_inv_def)
  have c: "te_in_closed s \<and> te_out1 s = vs \<and> te_out2 s = vs
           \<and> (te_pc s = TeeClosing1 \<or> te_pc s = TeeReturned)" if "0 < te_closes2 s"
  proof -
    from that ctl have p: "te_pc s = TeeClosing1 \<or> te_pc s = TeeReturned"
      by (simp add: te_ctl_inv_def split: if_split_asm)
    then have "tee_leaving (te_pc s)" by auto
    from te_leaving_outputs[OF dat this] p show ?thesis by simp
  qed
  have st: "te_all_returned s \<and> te_out1 s = vs \<and> te_out2 s = vs
           \<and> te_closes1 s = 1 \<and> te_closes2 s = 1" if "te_stuck s"
  proof -
    have r: "te_all_returned s" using ctl that by (rule te_stuck_returned)
    then have "tee_leaving (te_pc s)" by (simp add: te_all_returned_def)
    from te_leaving_outputs[OF dat this] r ctl show ?thesis
      by (simp add: te_all_returned_def te_ctl_inv_def)
  qed
  have "length sched + te_measure s \<le> te_measure (te_init vs)"
    using assms(2) by (rule run_measure) (rule te_measure_step)
  moreover have "1 \<le> te_measure s" using dat by (simp add: te_data_inv_def te_measure_def)
  ultimately have len: "length sched \<le> 3 * length vs + 6"
    by (simp add: te_measure_def te_init_def)
  have "\<exists>sched' s'. set sched' \<subseteq> - {TE_Cancel} \<and> run te_step sched' s = Some s'
      \<and> (\<forall>a \<in> - {TE_Cancel}. te_step a s' = None)"
    by (rule run_complete) (rule te_measure_step)
  then obtain sched' s' where e: "set sched' \<subseteq> - {TE_Cancel}" "run te_step sched' s = Some s'"
      "te_stuck s'" unfolding te_stuck_iff by blast
  have r': "run te_step (sched @ sched') (te_init vs) = Some s'"
    using assms(2) e(2) by (simp add: run_append)
  have nc: "TE_Cancel \<notin> set (sched @ sched')" using assms(1) e(1) by auto
  have ctl': "te_ctl_inv s'" using r' by (rule te_ctl_inv_run)
  have dat': "te_data_inv vs s'" using nc r' by (rule te_data_inv_run)
  have ret': "te_all_returned s'" using ctl' e(3) by (rule te_stuck_returned)
  then have "tee_leaving (te_pc s')" by (simp add: te_all_returned_def)
  from te_leaving_outputs[OF dat' this] ret' ctl'
  have "te_all_returned s' \<and> te_out1 s' = vs \<and> te_out2 s' = vs
            \<and> te_closes1 s' = 1 \<and> te_closes2 s' = 1"
    by (simp add: te_all_returned_def te_ctl_inv_def)
  then have f: "\<exists>sched' s'. TE_Cancel \<notin> set sched'
            \<and> run te_step (sched @ sched') (te_init vs) = Some s'
            \<and> te_all_returned s' \<and> te_out1 s' = vs \<and> te_out2 s' = vs
            \<and> te_closes1 s' = 1 \<and> te_closes2 s' = 1"
    using e(1) r' by blast
  show ?thesis using a b c st len f by blast
qed

text \<open>
  The input 7, 8: each value goes to the first and then to the second consumer; when the
  generator has returned \<^verbatim>\<open>Tee\<close> closes \<^verbatim>\<open>ch2\<close> and \<^verbatim>\<open>ch1\<close>, and both consumers end with
  \<open>[7, 8]\<close>.
\<close>

theorem C4_tee_copies_input_witness:
  "TE_Cancel \<notin> set [TE_Gen_send, TE_Tee_send1, TE_Tee_send2, TE_Gen_send, TE_Tee_send1,
       TE_Tee_send2, TE_Gen_return, TE_Tee_input_closed, TE_Tee_close2, TE_Consumer2_end,
       TE_Tee_close1, TE_Consumer1_end]
   \<and> run te_step [TE_Gen_send, TE_Tee_send1, TE_Tee_send2, TE_Gen_send, TE_Tee_send1,
       TE_Tee_send2, TE_Gen_return, TE_Tee_input_closed, TE_Tee_close2, TE_Consumer2_end,
       TE_Tee_close1, TE_Consumer1_end] (te_init [7, 8 :: go_int])
     = Some \<lparr>te_done = False, te_values = [], te_in_closed = True, te_pc = TeeReturned,
         te_closes1 = 1, te_closes2 = 1, te_out1 = [7, 8], te_out2 = [7, 8], te_fin1 = True,
         te_fin2 = True\<rparr>
   \<and> te_stuck \<lparr>te_done = False, te_values = [], te_in_closed = True, te_pc = TeeReturned,
         te_closes1 = 1, te_closes2 = 1, te_out1 = [7, 8 :: go_int], te_out2 = [7, 8],
         te_fin1 = True, te_fin2 = True\<rparr>
   \<and> te_all_returned \<lparr>te_done = False, te_values = [], te_in_closed = True,
         te_pc = TeeReturned, te_closes1 = 1, te_closes2 = 1, te_out1 = [7, 8 :: go_int],
         te_out2 = [7, 8], te_fin1 = True, te_fin2 = True\<rparr>"
proof -
  let ?sched = "[TE_Gen_send, TE_Tee_send1, TE_Tee_send2, TE_Gen_send, TE_Tee_send1,
       TE_Tee_send2, TE_Gen_return, TE_Tee_input_closed, TE_Tee_close2, TE_Consumer2_end,
       TE_Tee_close1, TE_Consumer1_end]"
  let ?s = "\<lparr>te_done = False, te_values = [], te_in_closed = True, te_pc = TeeReturned,
         te_closes1 = 1, te_closes2 = 1, te_out1 = [7, 8 :: go_int], te_out2 = [7, 8],
         te_fin1 = True, te_fin2 = True\<rparr>"
  have n: "TE_Cancel \<notin> set ?sched" by simp
  have r: "run te_step ?sched (te_init [7, 8]) = Some ?s" by (simp add: te_init_def)
  have st: "te_stuck ?s" by (simp add: te_stuck_def)
  from C4_tee_copies_input[OF n r] st
  have "te_all_returned ?s \<and> te_out1 ?s = [7, 8] \<and> te_out2 ?s = [7, 8]" by blast
  then show ?thesis using n r st by simp
qed

section \<open>Fan-out and fan-in: the merged output as a multiset\<close>

lemma fa_not_panicked: "fa_step f a s = Some s' \<Longrightarrow> \<not> fa_panicked s"
  by (simp add: fa_step_def split: if_split_asm)

lemma fa_CancelD:
  "fa_step f FA_Cancel s = Some s' \<Longrightarrow> \<not> fa_done s \<and> s' = s\<lparr>fa_done := True\<rparr>"
  by (simp add: fa_step_def split: if_split_asm)

lemma fa_Gen_sendD:
  "fa_step f (FA_Gen_send i) s = Some s' \<Longrightarrow>
   \<exists>v vs. fa_values s = v # vs \<and> \<not> fa_in_closed s \<and> i < length (fa_workers s)
     \<and> fa_workers s ! i = StageRanging
     \<and> s' = s\<lparr>fa_values := vs, fa_workers := (fa_workers s)[i := StageSelect v]\<rparr>"
  by (simp add: fa_step_def split: if_split_asm list.split_asm)

lemma fa_Gen_doneD:
  "fa_step f FA_Gen_done s = Some s' \<Longrightarrow>
   fa_values s \<noteq> [] \<and> \<not> fa_in_closed s \<and> fa_done s \<and> s' = s\<lparr>fa_in_closed := True\<rparr>"
  by (simp add: fa_step_def split: if_split_asm)

lemma fa_Gen_returnD:
  "fa_step f FA_Gen_return s = Some s' \<Longrightarrow>
   fa_values s = [] \<and> \<not> fa_in_closed s \<and> s' = s\<lparr>fa_in_closed := True\<rparr>"
  by (simp add: fa_step_def split: if_split_asm)

lemma fa_Worker_doneD:
  "fa_step f (FA_Worker_done i) s = Some s' \<Longrightarrow>
   \<exists>val. i < length (fa_workers s) \<and> fa_done s \<and> fa_workers s ! i = StageSelect val
     \<and> s' = s\<lparr>fa_workers := (fa_workers s)[i := StageReturned]\<rparr>"
  by (simp add: fa_step_def split: if_split_asm stage_pc.split_asm)

lemma fa_Worker_sendD:
  "fa_step f (FA_Worker_send i) s = Some s' \<Longrightarrow>
   \<exists>val. i < length (fa_workers s) \<and> i < length (fa_forwarders s)
     \<and> fa_forwarders s ! i = StageRanging \<and> fa_workers s ! i = StageSelect val
     \<and> s' = s\<lparr>fa_workers := (fa_workers s)[i := StageRanging],
               fa_forwarders := (fa_forwarders s)[i := StageSelect (f val)]\<rparr>"
  by (simp add: fa_step_def split: if_split_asm stage_pc.split_asm)

lemma fa_Worker_returnD:
  "fa_step f (FA_Worker_return i) s = Some s' \<Longrightarrow>
   i < length (fa_workers s) \<and> fa_workers s ! i = StageRanging \<and> fa_in_closed s
     \<and> s' = s\<lparr>fa_workers := (fa_workers s)[i := StageReturned]\<rparr>"
  by (simp add: fa_step_def split: if_split_asm)

lemma fa_Fwd_doneD:
  "fa_step f (FA_Fwd_done i) s = Some s' \<Longrightarrow>
   \<exists>val. i < length (fa_forwarders s) \<and> fa_done s \<and> fa_forwarders s ! i = StageSelect val
     \<and> s' = wg_Done (s\<lparr>fa_forwarders := (fa_forwarders s)[i := StageReturned]\<rparr>)"
  by (simp add: fa_step_def split: if_split_asm stage_pc.split_asm)

lemma fa_Fwd_sendD:
  "fa_step f (FA_Fwd_send i) s = Some s' \<Longrightarrow>
   \<exists>val. i < length (fa_forwarders s) \<and> \<not> fa_finished s
     \<and> fa_forwarders s ! i = StageSelect val
     \<and> (if fa_out_closed s then s' = s\<lparr>fa_panicked := True\<rparr>
         else s' = s\<lparr>fa_forwarders := (fa_forwarders s)[i := StageRanging],
                      fa_collected := fa_collected s @ [val]\<rparr>)"
  by (simp add: fa_step_def split: if_split_asm stage_pc.split_asm)

lemma fa_Fwd_returnD:
  "fa_step f (FA_Fwd_return i) s = Some s' \<Longrightarrow>
   i < length (fa_forwarders s) \<and> i < length (fa_workers s)
     \<and> fa_forwarders s ! i = StageRanging \<and> fa_workers s ! i = StageReturned
     \<and> s' = wg_Done (s\<lparr>fa_forwarders := (fa_forwarders s)[i := StageReturned]\<rparr>)"
  by (simp add: fa_step_def split: if_split_asm)

lemma fa_Close_outputD:
  "fa_step f FA_Close_output s = Some s' \<Longrightarrow>
   fa_wg s = 0 \<and> \<not> fa_out_closed s \<and> s' = s\<lparr>fa_out_closed := True\<rparr>"
  by (simp add: fa_step_def split: if_split_asm)

lemma fa_Consumer_endD:
  "fa_step f FA_Consumer_end s = Some s' \<Longrightarrow>
   fa_out_closed s \<and> \<not> fa_finished s \<and> s' = s\<lparr>fa_finished := True\<rparr>"
  by (simp add: fa_step_def split: if_split_asm)


lemma fa_measure_wg_Done: "fa_measure (wg_Done x) \<le> fa_measure x"
  by (simp add: wg_Done_def fa_measure_def)

lemma fa_measure_step:
  assumes "fa_step f a s = Some s'"
  shows "fa_measure s' < fa_measure s"
proof (cases a)
  case FA_Cancel
  with assms fa_CancelD[of f s s'] show ?thesis by (simp add: fa_measure_def)
next
  case (FA_Gen_send i)
  with assms fa_Gen_sendD[of f i s s'] obtain v vs where
    h: "fa_values s = v # vs" "i < length (fa_workers s)" "fa_workers s ! i = StageRanging"
    "s' = s\<lparr>fa_values := vs, fa_workers := (fa_workers s)[i := StageSelect v]\<rparr>" by blast
  from sum_list_map_update[OF h(2), of worker_left "StageSelect v"] h
  show ?thesis by (simp add: fa_measure_def)
next
  case FA_Gen_done
  with assms fa_Gen_doneD[of f s s'] show ?thesis by (simp add: fa_measure_def)
next
  case FA_Gen_return
  with assms fa_Gen_returnD[of f s s'] show ?thesis by (simp add: fa_measure_def)
next
  case (FA_Worker_done i)
  with assms fa_Worker_doneD[of f i s s'] obtain val where
    h: "i < length (fa_workers s)" "fa_workers s ! i = StageSelect val"
    "s' = s\<lparr>fa_workers := (fa_workers s)[i := StageReturned]\<rparr>" by blast
  from sum_list_map_update[OF h(1), of worker_left StageReturned] h
  show ?thesis by (simp add: fa_measure_def)
next
  case (FA_Worker_send i)
  with assms fa_Worker_sendD[of f i s s'] obtain val where
    h: "i < length (fa_workers s)" "i < length (fa_forwarders s)"
    "fa_forwarders s ! i = StageRanging" "fa_workers s ! i = StageSelect val"
    "s' = s\<lparr>fa_workers := (fa_workers s)[i := StageRanging],
               fa_forwarders := (fa_forwarders s)[i := StageSelect (f val)]\<rparr>" by blast
  from sum_list_map_update[OF h(1), of worker_left StageRanging]
    sum_list_map_update[OF h(2), of forwarder_left "StageSelect (f val)"] h
  show ?thesis by (simp add: fa_measure_def)
next
  case (FA_Worker_return i)
  with assms fa_Worker_returnD[of f i s s'] have
    h: "i < length (fa_workers s)" "fa_workers s ! i = StageRanging"
    "s' = s\<lparr>fa_workers := (fa_workers s)[i := StageReturned]\<rparr>" by blast+
  from sum_list_map_update[OF h(1), of worker_left StageReturned] h
  show ?thesis by (simp add: fa_measure_def)
next
  case (FA_Fwd_done i)
  with assms fa_Fwd_doneD[of f i s s'] obtain val where
    h: "i < length (fa_forwarders s)" "fa_forwarders s ! i = StageSelect val"
    "s' = wg_Done (s\<lparr>fa_forwarders := (fa_forwarders s)[i := StageReturned]\<rparr>)" by blast
  let ?x = "s\<lparr>fa_forwarders := (fa_forwarders s)[i := StageReturned]\<rparr>"
  from sum_list_map_update[OF h(1), of forwarder_left StageReturned] h
  have "fa_measure ?x < fa_measure s" by (simp add: fa_measure_def)
  then show ?thesis using fa_measure_wg_Done[of ?x] h(3) by simp
next
  case (FA_Fwd_send i)
  with assms fa_Fwd_sendD[of f i s s'] obtain val where
    h: "i < length (fa_forwarders s)" "fa_forwarders s ! i = StageSelect val"
    "if fa_out_closed s then s' = s\<lparr>fa_panicked := True\<rparr>
         else s' = s\<lparr>fa_forwarders := (fa_forwarders s)[i := StageRanging],
                      fa_collected := fa_collected s @ [val]\<rparr>" by blast
  from sum_list_map_update[OF h(1), of forwarder_left StageRanging] h fa_not_panicked[OF assms]
  show ?thesis by (cases "fa_out_closed s") (simp_all add: fa_measure_def)
next
  case (FA_Fwd_return i)
  with assms fa_Fwd_returnD[of f i s s'] have
    h: "i < length (fa_forwarders s)" "fa_forwarders s ! i = StageRanging"
    "s' = wg_Done (s\<lparr>fa_forwarders := (fa_forwarders s)[i := StageReturned]\<rparr>)" by blast+
  let ?x = "s\<lparr>fa_forwarders := (fa_forwarders s)[i := StageReturned]\<rparr>"
  from sum_list_map_update[OF h(1), of forwarder_left StageReturned] h
  have "fa_measure ?x < fa_measure s" by (simp add: fa_measure_def)
  then show ?thesis using fa_measure_wg_Done[of ?x] h(3) by simp
next
  case FA_Close_output
  with assms fa_Close_outputD[of f s s'] show ?thesis by (simp add: fa_measure_def)
next
  case FA_Consumer_end
  with assms fa_Consumer_endD[of f s s'] show ?thesis by (simp add: fa_measure_def)
qed

lemma stage_alive_pos:
  assumes "i < length pcs" and "pcs ! i \<noteq> StageReturned"
  shows "0 < sum_list (map stage_alive pcs)"
proof -
  have "stage_alive (pcs ! i) = 1" using assms(2) by (cases "pcs ! i") auto
  with sum_list_map_update[OF assms(1), of stage_alive StageReturned] show ?thesis by simp
qed

lemma wg_Done_alive:
  assumes "fa_wg s = sum_list (map stage_alive (fa_forwarders s))"
    and "i < length (fa_forwarders s)" and "fa_forwarders s ! i \<noteq> StageReturned"
  shows "wg_Done (s\<lparr>fa_forwarders := (fa_forwarders s)[i := StageReturned]\<rparr>)
     = s\<lparr>fa_forwarders := (fa_forwarders s)[i := StageReturned],
         fa_wg := sum_list (map stage_alive ((fa_forwarders s)[i := StageReturned]))\<rparr>"
proof -
  have "stage_alive (fa_forwarders s ! i) = 1" using assms(3) by (cases "fa_forwarders s ! i") auto
  with sum_list_map_update[OF assms(2), of stage_alive StageReturned] assms(1)
  have "sum_list (map stage_alive ((fa_forwarders s)[i := StageReturned])) + 1 = fa_wg s" by simp
  then show ?thesis by (auto simp: wg_Done_def)
qed

lemma fa_ctl_inv_step:
  assumes inv: "fa_ctl_inv n s" and step: "fa_step f a s = Some s'"
  shows "fa_ctl_inv n s'"
proof (cases a)
  case FA_Cancel
  with step fa_CancelD[of f s s'] inv show ?thesis by (auto simp: fa_ctl_inv_def)
next
  case (FA_Gen_send i)
  with step fa_Gen_sendD[of f i s s'] obtain v vs where
    h: "i < length (fa_workers s)" "fa_workers s ! i = StageRanging"
    "s' = s\<lparr>fa_values := vs, fa_workers := (fa_workers s)[i := StageSelect v]\<rparr>" by blast
  then show ?thesis using inv by (auto simp: fa_ctl_inv_def nth_list_update)
next
  case FA_Gen_done
  with step fa_Gen_doneD[of f s s'] inv show ?thesis by (auto simp: fa_ctl_inv_def)
next
  case FA_Gen_return
  with step fa_Gen_returnD[of f s s'] inv show ?thesis by (auto simp: fa_ctl_inv_def)
next
  case (FA_Worker_done i)
  with step fa_Worker_doneD[of f i s s'] obtain val where
    h: "i < length (fa_workers s)" "fa_done s" "fa_workers s ! i = StageSelect val"
    "s' = s\<lparr>fa_workers := (fa_workers s)[i := StageReturned]\<rparr>" by blast
  then show ?thesis using inv by (auto simp: fa_ctl_inv_def nth_list_update)
next
  case (FA_Worker_send i)
  with step fa_Worker_sendD[of f i s s'] obtain val where
    h: "i < length (fa_workers s)" "i < length (fa_forwarders s)"
    "fa_forwarders s ! i = StageRanging" "fa_workers s ! i = StageSelect val"
    "s' = s\<lparr>fa_workers := (fa_workers s)[i := StageRanging],
               fa_forwarders := (fa_forwarders s)[i := StageSelect (f val)]\<rparr>" by blast
  from sum_list_map_update[OF h(2), of stage_alive "StageSelect (f val)"] h
  have "sum_list (map stage_alive (fa_forwarders s')) = sum_list (map stage_alive (fa_forwarders s))"
    by simp
  then show ?thesis using inv h by (auto simp: fa_ctl_inv_def nth_list_update)
next
  case (FA_Worker_return i)
  with step fa_Worker_returnD[of f i s s'] have
    h: "i < length (fa_workers s)" "fa_workers s ! i = StageRanging" "fa_in_closed s"
    "s' = s\<lparr>fa_workers := (fa_workers s)[i := StageReturned]\<rparr>" by blast+
  then show ?thesis using inv by (auto simp: fa_ctl_inv_def nth_list_update)
next
  case (FA_Fwd_done i)
  with step fa_Fwd_doneD[of f i s s'] obtain val where
    h: "i < length (fa_forwarders s)" "fa_done s" "fa_forwarders s ! i = StageSelect val"
    "s' = wg_Done (s\<lparr>fa_forwarders := (fa_forwarders s)[i := StageReturned]\<rparr>)" by blast
  have wg: "fa_wg s = sum_list (map stage_alive (fa_forwarders s))"
    using inv by (simp add: fa_ctl_inv_def)
  have ne: "fa_forwarders s ! i \<noteq> StageReturned" using h(3) by simp
  have pos: "0 < fa_wg s" using wg stage_alive_pos[OF h(1)] h by simp
  note s' = h(4)[unfolded wg_Done_alive[OF wg h(1) ne]]
  show ?thesis using inv h(1,2) pos unfolding s' by (auto simp: fa_ctl_inv_def nth_list_update)
next
  case (FA_Fwd_send i)
  with step fa_Fwd_sendD[of f i s s'] obtain val where
    h: "i < length (fa_forwarders s)" "\<not> fa_finished s" "fa_forwarders s ! i = StageSelect val"
    "if fa_out_closed s then s' = s\<lparr>fa_panicked := True\<rparr>
         else s' = s\<lparr>fa_forwarders := (fa_forwarders s)[i := StageRanging],
                      fa_collected := fa_collected s @ [val]\<rparr>" by blast
  have wg: "fa_wg s = sum_list (map stage_alive (fa_forwarders s))"
    using inv by (simp add: fa_ctl_inv_def)
  have pos: "0 < fa_wg s" using wg stage_alive_pos[OF h(1)] h by simp
  then have nc: "\<not> fa_out_closed s" using inv by (auto simp: fa_ctl_inv_def)
  from sum_list_map_update[OF h(1), of stage_alive StageRanging] h
  have "sum_list (map stage_alive ((fa_forwarders s)[i := StageRanging]))
      = sum_list (map stage_alive (fa_forwarders s))" by simp
  then show ?thesis using inv h nc by (auto simp: fa_ctl_inv_def nth_list_update)
next
  case (FA_Fwd_return i)
  with step fa_Fwd_returnD[of f i s s'] have
    h: "i < length (fa_forwarders s)" "i < length (fa_workers s)"
    "fa_forwarders s ! i = StageRanging" "fa_workers s ! i = StageReturned"
    "s' = wg_Done (s\<lparr>fa_forwarders := (fa_forwarders s)[i := StageReturned]\<rparr>)" by blast+
  have wg: "fa_wg s = sum_list (map stage_alive (fa_forwarders s))"
    using inv by (simp add: fa_ctl_inv_def)
  have ne: "fa_forwarders s ! i \<noteq> StageReturned" using h(3) by simp
  have pos: "0 < fa_wg s" using wg stage_alive_pos[OF h(1)] h by simp
  note s' = h(5)[unfolded wg_Done_alive[OF wg h(1) ne]]
  show ?thesis using inv h(1,2,4) pos unfolding s' by (auto simp: fa_ctl_inv_def nth_list_update)
next
  case FA_Close_output
  with step fa_Close_outputD[of f s s'] inv show ?thesis by (auto simp: fa_ctl_inv_def)
next
  case FA_Consumer_end
  with step fa_Consumer_endD[of f s s'] inv show ?thesis by (auto simp: fa_ctl_inv_def)
qed


lemma fa_data_inv_step:
  assumes inv: "fa_data_inv f vs0 s" and len: "length (fa_forwarders s) = length (fa_workers s)"
    and nc: "a \<noteq> FA_Cancel" and step: "fa_step f a s = Some s'"
  shows "fa_data_inv f vs0 s'"
proof -
  from inv have nd: "\<not> fa_done s"
    and ms: "mset (map f vs0)
         = mset (fa_collected s) + sum_list (map stage_held (fa_forwarders s))
           + image_mset f (sum_list (map stage_held (fa_workers s)))
           + mset (map f (fa_values s))"
    and ic: "fa_in_closed s \<longrightarrow> fa_values s = []"
    and wr: "\<forall>i < length (fa_workers s). fa_workers s ! i = StageReturned \<longrightarrow> fa_in_closed s"
    and fr: "\<forall>i < length (fa_workers s). fa_forwarders s ! i = StageReturned \<longrightarrow>
            fa_workers s ! i = StageReturned"
    by (simp_all add: fa_data_inv_def)
  show ?thesis
  proof (cases a)
    case FA_Cancel
    then show ?thesis using nc by simp
  next
    case (FA_Gen_send i)
    with step fa_Gen_sendD[of f i s s'] obtain v vs where
      h: "fa_values s = v # vs" "\<not> fa_in_closed s" "i < length (fa_workers s)"
      "fa_workers s ! i = StageRanging"
      "s' = s\<lparr>fa_values := vs, fa_workers := (fa_workers s)[i := StageSelect v]\<rparr>" by blast
    from sum_list_map_update[OF h(3), of stage_held "StageSelect v"] h
    have w: "sum_list (map stage_held (fa_workers s')) = sum_list (map stage_held (fa_workers s)) + {#v#}"
      by simp
    have "mset (map f vs0)
         = mset (fa_collected s') + sum_list (map stage_held (fa_forwarders s'))
           + image_mset f (sum_list (map stage_held (fa_workers s')))
           + mset (map f (fa_values s'))"
      unfolding w using ms h by simp
    then show ?thesis using nd ic wr fr h len by (auto simp: fa_data_inv_def nth_list_update)
  next
    case FA_Gen_done
    with step fa_Gen_doneD[of f s s'] nd show ?thesis by simp
  next
    case FA_Gen_return
    with step fa_Gen_returnD[of f s s'] inv show ?thesis by (auto simp: fa_data_inv_def)
  next
    case (FA_Worker_done i)
    with step fa_Worker_doneD[of f i s s'] nd show ?thesis by auto
  next
    case (FA_Worker_send i)
    with step fa_Worker_sendD[of f i s s'] obtain val where
      h: "i < length (fa_workers s)" "i < length (fa_forwarders s)"
      "fa_forwarders s ! i = StageRanging" "fa_workers s ! i = StageSelect val"
      "s' = s\<lparr>fa_workers := (fa_workers s)[i := StageRanging],
               fa_forwarders := (fa_forwarders s)[i := StageSelect (f val)]\<rparr>" by blast
    from sum_list_map_update[OF h(1), of stage_held StageRanging] h
    have w: "sum_list (map stage_held (fa_workers s)) = sum_list (map stage_held (fa_workers s')) + {#val#}"
      by simp
    from sum_list_map_update[OF h(2), of stage_held "StageSelect (f val)"] h
    have fw: "sum_list (map stage_held (fa_forwarders s'))
        = sum_list (map stage_held (fa_forwarders s)) + {#f val#}"
      by simp
    have "mset (map f vs0)
         = mset (fa_collected s') + sum_list (map stage_held (fa_forwarders s'))
           + image_mset f (sum_list (map stage_held (fa_workers s')))
           + mset (map f (fa_values s'))"
      unfolding fw using ms[unfolded w] h(5) by simp
    then show ?thesis using nd ic wr fr h len by (auto simp: fa_data_inv_def nth_list_update)
  next
    case (FA_Worker_return i)
    with step fa_Worker_returnD[of f i s s'] have
      h: "i < length (fa_workers s)" "fa_workers s ! i = StageRanging" "fa_in_closed s"
      "s' = s\<lparr>fa_workers := (fa_workers s)[i := StageReturned]\<rparr>" by blast+
    from sum_list_map_update[OF h(1), of stage_held StageReturned] h
    have w: "sum_list (map stage_held (fa_workers s')) = sum_list (map stage_held (fa_workers s))"
      by simp
    have "mset (map f vs0)
         = mset (fa_collected s') + sum_list (map stage_held (fa_forwarders s'))
           + image_mset f (sum_list (map stage_held (fa_workers s')))
           + mset (map f (fa_values s'))"
      unfolding w using ms h by simp
    then show ?thesis using nd ic wr fr h len by (auto simp: fa_data_inv_def nth_list_update)
  next
    case (FA_Fwd_done i)
    with step fa_Fwd_doneD[of f i s s'] nd show ?thesis by auto
  next
    case (FA_Fwd_send i)
    with step fa_Fwd_sendD[of f i s s'] obtain val where
      h: "i < length (fa_forwarders s)" "fa_forwarders s ! i = StageSelect val"
      "if fa_out_closed s then s' = s\<lparr>fa_panicked := True\<rparr>
         else s' = s\<lparr>fa_forwarders := (fa_forwarders s)[i := StageRanging],
                      fa_collected := fa_collected s @ [val]\<rparr>" by blast
    show ?thesis
    proof (cases "fa_out_closed s")
      case True
      then show ?thesis using h inv by (simp add: fa_data_inv_def)
    next
      case False
      then have s': "s' = s\<lparr>fa_forwarders := (fa_forwarders s)[i := StageRanging],
                      fa_collected := fa_collected s @ [val]\<rparr>" using h(3) by simp
      from sum_list_map_update[OF h(1), of stage_held StageRanging] h
      have fw: "sum_list (map stage_held (fa_forwarders s))
          = sum_list (map stage_held (fa_forwarders s')) + {#val#}"
        unfolding s' by simp
      have "mset (map f vs0)
         = mset (fa_collected s') + sum_list (map stage_held (fa_forwarders s'))
           + image_mset f (sum_list (map stage_held (fa_workers s')))
           + mset (map f (fa_values s'))"
        using ms[unfolded fw] unfolding s' by simp
      then show ?thesis using nd ic wr fr h len unfolding s'
        by (auto simp: fa_data_inv_def nth_list_update)
    qed
  next
    case (FA_Fwd_return i)
    with step fa_Fwd_returnD[of f i s s'] have
      h: "i < length (fa_forwarders s)" "i < length (fa_workers s)"
      "fa_forwarders s ! i = StageRanging" "fa_workers s ! i = StageReturned"
      "s' = wg_Done (s\<lparr>fa_forwarders := (fa_forwarders s)[i := StageReturned]\<rparr>)" by blast+
    let ?x = "s\<lparr>fa_forwarders := (fa_forwarders s)[i := StageReturned]\<rparr>"
    from sum_list_map_update[OF h(1), of stage_held StageReturned] h
    have fw: "sum_list (map stage_held (fa_forwarders ?x)) = sum_list (map stage_held (fa_forwarders s))"
      by simp
    have "mset (map f vs0)
         = mset (fa_collected ?x) + sum_list (map stage_held (fa_forwarders ?x))
           + image_mset f (sum_list (map stage_held (fa_workers ?x)))
           + mset (map f (fa_values ?x))"
      unfolding fw using ms by simp
    then have "fa_data_inv f vs0 ?x" using nd ic wr fr h len
      by (auto simp: fa_data_inv_def nth_list_update)
    then show ?thesis unfolding h(5) by (simp add: fa_data_inv_def wg_Done_def)
  next
    case FA_Close_output
    with step fa_Close_outputD[of f s s'] inv show ?thesis by (auto simp: fa_data_inv_def)
  next
    case FA_Consumer_end
    with step fa_Consumer_endD[of f s s'] inv show ?thesis by (auto simp: fa_data_inv_def)
  qed
qed


lemma stage_alive_0: "stage_alive pc = 0 \<longleftrightarrow> pc = StageReturned"
  by (cases pc) simp_all

lemma all_Returned_alive:
  "sum_list (map stage_alive pcs) = 0 \<longleftrightarrow> (\<forall>pc \<in> set pcs. pc = StageReturned)"
  by (simp add: sum_list_eq_0_iff stage_alive_0)

lemma all_Returned_held:
  "\<forall>pc \<in> set pcs. pc = StageReturned \<Longrightarrow> sum_list (map stage_held pcs) = {#}"
  by (induction pcs) simp_all

lemma fa_quiet_stuck: "fa_quiet f s \<longleftrightarrow> fa_stuck f s"
proof
  assume q: "fa_quiet f s"
  have m: "\<And>a. a \<in> set (fa_choices s) \<Longrightarrow> fa_step f a s = None"
    using q by (simp add: fa_quiet_def list_all_iff)
  show "fa_stuck f s" unfolding fa_stuck_def
  proof (intro allI impI)
    fix a :: fa_action assume "a \<noteq> FA_Cancel"
    then show "fa_step f a s = None"
    proof (cases a)
      case (FA_Gen_send i)
      show ?thesis
      proof (cases "i < length (fa_workers s)")
        case True
        then have "a \<in> set (fa_choices s)" using FA_Gen_send by (simp add: fa_choices_def)
        then show ?thesis by (rule m)
      next
        case False
        then show ?thesis using FA_Gen_send by (simp add: fa_step_def split: list.split)
      qed
    next
      case (FA_Worker_done i)
      show ?thesis
      proof (cases "i < length (fa_workers s)")
        case True
        then have "a \<in> set (fa_choices s)" using FA_Worker_done by (simp add: fa_choices_def)
        then show ?thesis by (rule m)
      next
        case False
        then show ?thesis using FA_Worker_done by (simp add: fa_step_def)
      qed
    next
      case (FA_Worker_send i)
      show ?thesis
      proof (cases "i < length (fa_workers s)")
        case True
        then have "a \<in> set (fa_choices s)" using FA_Worker_send by (simp add: fa_choices_def)
        then show ?thesis by (rule m)
      next
        case False
        then show ?thesis using FA_Worker_send by (simp add: fa_step_def)
      qed
    next
      case (FA_Worker_return i)
      show ?thesis
      proof (cases "i < length (fa_workers s)")
        case True
        then have "a \<in> set (fa_choices s)" using FA_Worker_return by (simp add: fa_choices_def)
        then show ?thesis by (rule m)
      next
        case False
        then show ?thesis using FA_Worker_return by (simp add: fa_step_def)
      qed
    next
      case (FA_Fwd_done i)
      show ?thesis
      proof (cases "i < length (fa_forwarders s)")
        case True
        then have "a \<in> set (fa_choices s)" using FA_Fwd_done by (simp add: fa_choices_def)
        then show ?thesis by (rule m)
      next
        case False
        then show ?thesis using FA_Fwd_done by (simp add: fa_step_def)
      qed
    next
      case (FA_Fwd_send i)
      show ?thesis
      proof (cases "i < length (fa_forwarders s)")
        case True
        then have "a \<in> set (fa_choices s)" using FA_Fwd_send by (simp add: fa_choices_def)
        then show ?thesis by (rule m)
      next
        case False
        then show ?thesis using FA_Fwd_send by (simp add: fa_step_def)
      qed
    next
      case (FA_Fwd_return i)
      show ?thesis
      proof (cases "i < length (fa_forwarders s)")
        case True
        then have "a \<in> set (fa_choices s)" using FA_Fwd_return by (simp add: fa_choices_def)
        then show ?thesis by (rule m)
      next
        case False
        then show ?thesis using FA_Fwd_return by (simp add: fa_step_def)
      qed
    qed (simp_all add: m fa_choices_def)
  qed
next
  assume "fa_stuck f s"
  then show "fa_quiet f s"
    by (auto simp: fa_quiet_def fa_stuck_def list_all_iff fa_choices_def)
qed

lemma fa_stuck_iff: "fa_stuck f s \<longleftrightarrow> (\<forall>a \<in> - {FA_Cancel}. fa_step f a s = None)"
  by (auto simp: fa_stuck_def)

lemma fa_worker_ranging_moves:
  assumes np: "\<not> fa_panicked s" and i: "i < length (fa_workers s)"
    and r: "fa_workers s ! i = StageRanging"
  shows "\<not> fa_stuck f s"
proof (cases "fa_in_closed s")
  case True
  then have "fa_step f (FA_Worker_return i) s \<noteq> None" using np i r by (simp add: fa_step_def)
  then show ?thesis by (auto simp: fa_stuck_def)
next
  case False
  show ?thesis
  proof (cases "fa_values s")
    case Nil
    then have "fa_step f FA_Gen_return s \<noteq> None" using np False by (simp add: fa_step_def)
    then show ?thesis by (auto simp: fa_stuck_def)
  next
    case (Cons v vs)
    then have "fa_step f (FA_Gen_send i) s \<noteq> None" using np False i r by (simp add: fa_step_def)
    then show ?thesis by (auto simp: fa_stuck_def)
  qed
qed

lemma fa_stuck_returned:
  assumes inv: "fa_ctl_inv n s" and n: "0 < n" and st: "fa_stuck f s"
  shows "fa_all_returned s"
proof -
  note I = inv[unfolded fa_ctl_inv_def]
  note np = I[THEN conjunct1]
  note lw = I[THEN conjunct2, THEN conjunct1]
  note lf = I[THEN conjunct2, THEN conjunct2, THEN conjunct1]
  note wg = I[THEN conjunct2, THEN conjunct2, THEN conjunct2, THEN conjunct1]
  note oc = I[THEN conjunct2, THEN conjunct2, THEN conjunct2, THEN conjunct2, THEN conjunct1]
  note fin = I[THEN conjunct2, THEN conjunct2, THEN conjunct2, THEN conjunct2, THEN conjunct2,
    THEN conjunct1]
  note wr = I[THEN conjunct2, THEN conjunct2, THEN conjunct2, THEN conjunct2, THEN conjunct2,
    THEN conjunct2, THEN conjunct1]
  note fr = I[THEN conjunct2, THEN conjunct2, THEN conjunct2, THEN conjunct2, THEN conjunct2,
    THEN conjunct2, THEN conjunct2]
  have none: "\<And>a. a \<noteq> FA_Cancel \<Longrightarrow> fa_step f a s = None" using st by (simp add: fa_stuck_def)
  have F: "fa_forwarders s ! i = StageReturned" if i: "i < n" for i
  proof (cases "fa_forwarders s ! i")
    case StageReturned
    then show ?thesis .
  next
    case (StageSelect val)
    have "0 < fa_wg s" using wg stage_alive_pos[of i "fa_forwarders s"] i lf StageSelect by simp
    then have "\<not> fa_finished s" using oc fin by auto
    then have "fa_step f (FA_Fwd_send i) s \<noteq> None" using np i lf StageSelect
      by (simp add: fa_step_def)
    then show ?thesis using st by (auto simp: fa_stuck_def)
  next
    case StageRanging
    show ?thesis
    proof (cases "fa_workers s ! i")
      case StageRanging
      then show ?thesis using fa_worker_ranging_moves[OF np, of i f] i lw st by simp
    next
      case (StageSelect val)
      then have "fa_step f (FA_Worker_send i) s \<noteq> None"
        using np i lw lf \<open>fa_forwarders s ! i = StageRanging\<close> by (simp add: fa_step_def)
      then show ?thesis using st by (auto simp: fa_stuck_def)
    next
      case StageReturned
      then have "fa_step f (FA_Fwd_return i) s \<noteq> None"
        using np i lw lf \<open>fa_forwarders s ! i = StageRanging\<close> by (simp add: fa_step_def wg_Done_def)
      then show ?thesis using st by (auto simp: fa_stuck_def)
    qed
  qed
  then have allF: "\<forall>pc \<in> set (fa_forwarders s). pc = StageReturned"
    using lf by (auto simp: in_set_conv_nth)
  then have "sum_list (map stage_alive (fa_forwarders s)) = 0" by auto
  then have wg0: "fa_wg s = 0" using wg by simp
  have out: "fa_out_closed s"
  proof (rule ccontr)
    assume "\<not> fa_out_closed s"
    then have "fa_step f FA_Close_output s \<noteq> None" using np wg0 by (simp add: fa_step_def)
    then show False using st by (auto simp: fa_stuck_def)
  qed
  have fi: "fa_finished s"
  proof (rule ccontr)
    assume "\<not> fa_finished s"
    then have "fa_step f FA_Consumer_end s \<noteq> None" using np out by (simp add: fa_step_def)
    then show False using st by (auto simp: fa_stuck_def)
  qed
  have Wk: "fa_workers s ! i = StageReturned" if i: "i < n" for i
  proof (cases "fa_workers s ! i")
    case StageReturned
    then show ?thesis .
  next
    case StageRanging
    then show ?thesis using fa_worker_ranging_moves[OF np, of i f] i lw st by simp
  next
    case (StageSelect val)
    then have "fa_done s" using fr F[OF i] i by auto
    then have "fa_step f (FA_Worker_done i) s \<noteq> None" using np i lw StageSelect
      by (simp add: fa_step_def)
    then show ?thesis using st by (auto simp: fa_stuck_def)
  qed
  then have allW: "\<forall>pc \<in> set (fa_workers s). pc = StageReturned"
    using lw by (auto simp: in_set_conv_nth)
  have ic: "fa_in_closed s"
  proof (rule ccontr)
    assume nic: "\<not> fa_in_closed s"
    then have d: "fa_done s" using wr Wk[OF n] n by auto
    show False
    proof (cases "fa_values s")
      case Nil
      then have "fa_step f FA_Gen_return s \<noteq> None" using np nic by (simp add: fa_step_def)
      then show False using st by (auto simp: fa_stuck_def)
    next
      case (Cons v vs)
      then have "fa_step f FA_Gen_done s \<noteq> None" using np nic d by (simp add: fa_step_def)
      then show False using st by (auto simp: fa_stuck_def)
    qed
  qed
  show ?thesis using ic allW allF out fi np by (simp add: fa_all_returned_def)
qed


lemma sum_list_replicate_held: "sum_list (replicate n ({#} :: 'a multiset)) = {#}"
  by (induction n) simp_all

lemma FanOutFanIn_Proceeds:
  assumes "FanOutFanIn vs workers = Proceeds s0"
  shows "0 \<le> workers \<and> fa_ctl_inv (nat workers) s0 \<and> fa_data_inv f vs s0
     \<and> fa_measure s0 = 3 * length vs + 2 * nat workers + 5"
  using assms
  by (auto simp: FanOutFanIn_def fa_ctl_inv_def fa_data_inv_def fa_measure_def
      sum_list_replicate sum_list_replicate_held split: if_split_asm)

lemma fa_ctl_inv_run:
  assumes "fa_ctl_inv n s0" and "run (fa_step f) sched s0 = Some s"
  shows "fa_ctl_inv n s"
  using assms(2,1) by (rule run_invariant) (rule fa_ctl_inv_step)

lemma fa_data_inv_run:
  assumes "fa_ctl_inv n s0" and "fa_data_inv f vs s0" and "FA_Cancel \<notin> set sched"
    and "run (fa_step f) sched s0 = Some s"
  shows "fa_data_inv f vs s"
proof -
  have "fa_ctl_inv n s \<and> fa_data_inv f vs s"
    using assms(4)
  proof (rule run_invariant)
    show "fa_ctl_inv n s0 \<and> fa_data_inv f vs s0" using assms(1,2) by simp
  next
    fix a t t'
    assume a: "a \<in> set sched" and i: "fa_ctl_inv n t \<and> fa_data_inv f vs t"
      and st: "fa_step f a t = Some t'"
    have nc: "a \<noteq> FA_Cancel" using a assms(3) by auto
    have len: "length (fa_forwarders t) = length (fa_workers t)"
      using i by (simp add: fa_ctl_inv_def)
    show "fa_ctl_inv n t' \<and> fa_data_inv f vs t'"
      using fa_ctl_inv_step[OF _ st, of n] fa_data_inv_step[OF _ len nc st, of vs] i by simp
  qed
  then show ?thesis by simp
qed

lemma fa_finished_complete:
  assumes ctl: "fa_ctl_inv n s" and dat: "fa_data_inv f vs s" and n: "0 < n"
    and fin: "fa_finished s"
  shows "mset (fa_collected s) = mset (map f vs)"
proof -
  note I = ctl[unfolded fa_ctl_inv_def]
  note lw = I[THEN conjunct2, THEN conjunct1]
  note lf = I[THEN conjunct2, THEN conjunct2, THEN conjunct1]
  note wg = I[THEN conjunct2, THEN conjunct2, THEN conjunct2, THEN conjunct1]
  note oc = I[THEN conjunct2, THEN conjunct2, THEN conjunct2, THEN conjunct2, THEN conjunct1]
  note fi = I[THEN conjunct2, THEN conjunct2, THEN conjunct2, THEN conjunct2, THEN conjunct2,
    THEN conjunct1]
  note D = dat[unfolded fa_data_inv_def]
  note ms = D[THEN conjunct2, THEN conjunct1]
  note ic = D[THEN conjunct2, THEN conjunct2, THEN conjunct1]
  note wr = D[THEN conjunct2, THEN conjunct2, THEN conjunct2, THEN conjunct1]
  note fr = D[THEN conjunct2, THEN conjunct2, THEN conjunct2, THEN conjunct2]
  have "sum_list (map stage_alive (fa_forwarders s)) = 0" using fin fi oc wg by simp
  then have allF: "\<forall>pc \<in> set (fa_forwarders s). pc = StageReturned"
    by (simp only: all_Returned_alive)
  have W: "fa_workers s ! i = StageReturned" if "i < n" for i
  proof -
    have "fa_forwarders s ! i \<in> set (fa_forwarders s)" using that lf by simp
    then have "fa_forwarders s ! i = StageReturned" using allF by blast
    then show ?thesis using fr that lw by simp
  qed
  then have allW: "\<forall>pc \<in> set (fa_workers s). pc = StageReturned"
    using lw by (auto simp: in_set_conv_nth)
  have "fa_in_closed s" using W[OF n] wr n lw by simp
  then have "fa_values s = []" using ic by simp
  then show ?thesis using ms all_Returned_held[OF allF] all_Returned_held[OF allW] by simp
qed

text \<open>
  Claim C2. For every number of workers \<open>N \<ge> 1\<close>, every input list of \<open>M\<close> values and every
  transform \<open>f\<close> of the workers, under every schedule in which the context is not
  cancelled: nothing panics (no send on the closed output, no negative WaitGroup
  counter); what the consumer has collected is at every moment a sub-multiset of the
  transformed inputs; when the consumer's loop has ended, the merged output is closed
  and exactly \<open>M\<close> values were collected, as a multiset the transformed inputs; the only
  states in which no goroutine can move are those where everything has returned and
  the output is closed; every such schedule has at most \<open>3 * M + 2 * N + 3\<close> steps and can
  be continued to that end. The order of the collected values is not determined.
\<close>

theorem C2_fan_multiset:
  assumes "1 \<le> workers" and "FanOutFanIn vs workers = Proceeds s0"
    and "FA_Cancel \<notin> set sched" and "run (fa_step f) sched s0 = Some s"
  shows "\<not> fa_panicked s
     \<and> mset (fa_collected s) \<subseteq># mset (map f vs)
     \<and> (fa_finished s \<longrightarrow>
           mset (fa_collected s) = mset (map f vs) \<and> length (fa_collected s) = length vs
           \<and> fa_out_closed s)
     \<and> (fa_quiet f s \<longrightarrow> fa_all_returned s \<and> mset (fa_collected s) = mset (map f vs))
     \<and> length sched \<le> 3 * length vs + 2 * nat workers + 3
     \<and> (\<exists>sched' s'. FA_Cancel \<notin> set sched'
            \<and> run (fa_step f) (sched @ sched') s0 = Some s'
            \<and> fa_all_returned s' \<and> mset (fa_collected s') = mset (map f vs))"
proof -
  let ?n = "nat workers"
  have n: "0 < ?n" using assms(1) by simp
  note init = FanOutFanIn_Proceeds[OF assms(2), of f]
  have ctl0: "fa_ctl_inv ?n s0" and dat0: "fa_data_inv f vs s0" using init by simp_all
  have ctl: "fa_ctl_inv ?n s" using ctl0 assms(4) by (rule fa_ctl_inv_run)
  have dat: "fa_data_inv f vs s" using ctl0 dat0 assms(3,4) by (rule fa_data_inv_run)
  have np: "\<not> fa_panicked s" using ctl by (simp add: fa_ctl_inv_def)
  have nd: "\<not> fa_done s" using dat by (simp add: fa_data_inv_def)
  have "mset (map f vs)
         = mset (fa_collected s) + (sum_list (map stage_held (fa_forwarders s))
           + image_mset f (sum_list (map stage_held (fa_workers s)))
           + mset (map f (fa_values s)))"
    using dat by (simp add: fa_data_inv_def add.assoc)
  then have sub: "mset (fa_collected s) \<subseteq># mset (map f vs)" by (metis mset_subset_eq_add_left)
  have fin: "mset (fa_collected s) = mset (map f vs) \<and> length (fa_collected s) = length vs
           \<and> fa_out_closed s" if "fa_finished s"
  proof -
    have m: "mset (fa_collected s) = mset (map f vs)"
      using ctl dat n that by (rule fa_finished_complete)
    then have "length (fa_collected s) = length (map f vs)" by (rule mset_eq_length)
    then show ?thesis using m that ctl by (simp add: fa_ctl_inv_def)
  qed
  have qu: "fa_all_returned s \<and> mset (fa_collected s) = mset (map f vs)" if "fa_quiet f s"
  proof -
    have r: "fa_all_returned s" using ctl n that[unfolded fa_quiet_stuck] by (rule fa_stuck_returned)
    then have "fa_finished s" by (simp add: fa_all_returned_def)
    then show ?thesis using r fin by simp
  qed
  have "length sched + fa_measure s \<le> fa_measure s0"
    using assms(4) by (rule run_measure) (rule fa_measure_step)
  moreover have "2 \<le> fa_measure s" using np nd by (simp add: fa_measure_def)
  ultimately have len: "length sched \<le> 3 * length vs + 2 * nat workers + 3" using init by simp
  have "\<exists>sched' s'. set sched' \<subseteq> - {FA_Cancel} \<and> run (fa_step f) sched' s = Some s'
      \<and> (\<forall>a \<in> - {FA_Cancel}. fa_step f a s' = None)"
    by (rule run_complete) (rule fa_measure_step)
  then obtain sched' s' where e: "set sched' \<subseteq> - {FA_Cancel}"
      "run (fa_step f) sched' s = Some s'" "fa_stuck f s'"
    unfolding fa_stuck_iff by blast
  have r': "run (fa_step f) (sched @ sched') s0 = Some s'"
    using assms(4) e(2) by (simp add: run_append)
  have nc: "FA_Cancel \<notin> set (sched @ sched')" using assms(3) e(1) by auto
  have ctl': "fa_ctl_inv ?n s'" using ctl0 r' by (rule fa_ctl_inv_run)
  have dat': "fa_data_inv f vs s'" using ctl0 dat0 nc r' by (rule fa_data_inv_run)
  have ret': "fa_all_returned s'" using ctl' n e(3) by (rule fa_stuck_returned)
  then have "fa_finished s'" by (simp add: fa_all_returned_def)
  with ctl' dat' n have "mset (fa_collected s') = mset (map f vs)" by (rule fa_finished_complete)
  then have ex: "\<exists>sched' s'. FA_Cancel \<notin> set sched'
            \<and> run (fa_step f) (sched @ sched') s0 = Some s'
            \<and> fa_all_returned s' \<and> mset (fa_collected s') = mset (map f vs)"
    using e(1) r' ret' by blast
  show ?thesis using np sub fin qu len ex by blast
qed

text \<open>
  The repository's example: the values 1 to 5 squared by three workers. In this schedule
  worker 0 squares 1 and 4, worker 1 squares 2 and worker 2 squares 3 and 5; the consumer
  collects 9, 1, 16, 4, 25, and as a set \<open>{1, 4, 9, 16, 25}\<close>.
\<close>

theorem C2_fan_multiset_witness:
  "(1::int) \<le> 3
   \<and> FanOutFanIn [1, 2, 3, 4, 5 :: go_int] 3 = Proceeds
     \<lparr>fa_done = False, fa_values = [1, 2, 3, 4, 5 :: go_int], fa_in_closed = False,
       fa_workers = [StageRanging, StageRanging, StageRanging],
       fa_forwarders = [StageRanging, StageRanging, StageRanging], fa_wg = 3,
       fa_out_closed = False, fa_collected = [], fa_finished = False, fa_panicked = False\<rparr>
   \<and> FA_Cancel \<notin> set
      [FA_Gen_send 0, FA_Gen_send 1, FA_Gen_send 2, FA_Worker_send 2, FA_Fwd_send 2,
       FA_Worker_send 0, FA_Gen_send 0, FA_Fwd_send 0, FA_Worker_send 1, FA_Worker_send 0,
       FA_Gen_send 2, FA_Fwd_send 0, FA_Fwd_send 1, FA_Worker_send 2, FA_Fwd_send 2,
       FA_Gen_return, FA_Worker_return 0, FA_Worker_return 1, FA_Worker_return 2,
       FA_Fwd_return 0, FA_Fwd_return 1, FA_Fwd_return 2, FA_Close_output, FA_Consumer_end]
   \<and> run (fa_step Square_f)
      [FA_Gen_send 0, FA_Gen_send 1, FA_Gen_send 2, FA_Worker_send 2, FA_Fwd_send 2,
       FA_Worker_send 0, FA_Gen_send 0, FA_Fwd_send 0, FA_Worker_send 1, FA_Worker_send 0,
       FA_Gen_send 2, FA_Fwd_send 0, FA_Fwd_send 1, FA_Worker_send 2, FA_Fwd_send 2,
       FA_Gen_return, FA_Worker_return 0, FA_Worker_return 1, FA_Worker_return 2,
       FA_Fwd_return 0, FA_Fwd_return 1, FA_Fwd_return 2, FA_Close_output, FA_Consumer_end]
     \<lparr>fa_done = False, fa_values = [1, 2, 3, 4, 5 :: go_int], fa_in_closed = False,
       fa_workers = [StageRanging, StageRanging, StageRanging],
       fa_forwarders = [StageRanging, StageRanging, StageRanging], fa_wg = 3,
       fa_out_closed = False, fa_collected = [], fa_finished = False, fa_panicked = False\<rparr>
     = Some
     \<lparr>fa_done = False, fa_values = [], fa_in_closed = True,
       fa_workers = [StageReturned, StageReturned, StageReturned],
       fa_forwarders = [StageReturned, StageReturned, StageReturned], fa_wg = 0,
       fa_out_closed = True, fa_collected = [9, 1, 16, 4, 25 :: go_int], fa_finished = True,
       fa_panicked = False\<rparr>
   \<and> fa_quiet Square_f
     \<lparr>fa_done = False, fa_values = [], fa_in_closed = True,
       fa_workers = [StageReturned, StageReturned, StageReturned],
       fa_forwarders = [StageReturned, StageReturned, StageReturned], fa_wg = 0,
       fa_out_closed = True, fa_collected = [9, 1, 16, 4, 25 :: go_int], fa_finished = True,
       fa_panicked = False\<rparr>
   \<and> mset [9, 1, 16, 4, 25] = mset (map Square_f [1, 2, 3, 4, 5])
   \<and> set [9, 1, 16, 4, 25 :: go_int] = {1, 4, 9, 16, 25}
   \<and> fa_all_returned
     \<lparr>fa_done = False, fa_values = [], fa_in_closed = True,
       fa_workers = [StageReturned, StageReturned, StageReturned],
       fa_forwarders = [StageReturned, StageReturned, StageReturned], fa_wg = 0,
       fa_out_closed = True, fa_collected = [9, 1, 16, 4, 25 :: go_int], fa_finished = True,
       fa_panicked = False\<rparr>"
proof -
  let ?start = "\<lparr>fa_done = False, fa_values = [1, 2, 3, 4, 5 :: go_int], fa_in_closed = False,
       fa_workers = [StageRanging, StageRanging, StageRanging],
       fa_forwarders = [StageRanging, StageRanging, StageRanging], fa_wg = 3,
       fa_out_closed = False, fa_collected = [], fa_finished = False, fa_panicked = False\<rparr>"
  let ?s = "\<lparr>fa_done = False, fa_values = [], fa_in_closed = True,
       fa_workers = [StageReturned, StageReturned, StageReturned],
       fa_forwarders = [StageReturned, StageReturned, StageReturned], fa_wg = 0,
       fa_out_closed = True, fa_collected = [9, 1, 16, 4, 25 :: go_int], fa_finished = True,
       fa_panicked = False\<rparr>"
  let ?sched = "[FA_Gen_send 0, FA_Gen_send 1, FA_Gen_send 2, FA_Worker_send 2, FA_Fwd_send 2,
       FA_Worker_send 0, FA_Gen_send 0, FA_Fwd_send 0, FA_Worker_send 1, FA_Worker_send 0,
       FA_Gen_send 2, FA_Fwd_send 0, FA_Fwd_send 1, FA_Worker_send 2, FA_Fwd_send 2,
       FA_Gen_return, FA_Worker_return 0, FA_Worker_return 1, FA_Worker_return 2,
       FA_Fwd_return 0, FA_Fwd_return 1, FA_Fwd_return 2, FA_Close_output, FA_Consumer_end]"
  have w: "(1::int) \<le> 3" by simp
  have i: "FanOutFanIn [1, 2, 3, 4, 5 :: go_int] 3 = Proceeds ?start"
    by (simp add: FanOutFanIn_def numeral_3_eq_3)
  have n: "FA_Cancel \<notin> set ?sched" by simp
  have r: "run (fa_step Square_f) ?sched ?start = Some ?s"
    by (simp add: fa_step_def wg_Done_def Square_f_def eval_nat_numeral)
  have q: "fa_quiet Square_f ?s"
    by (simp add: fa_quiet_def fa_choices_def fa_step_def upt_rec eval_nat_numeral)
  from C2_fan_multiset[OF w i n r] q
  have "fa_all_returned ?s \<and> mset (fa_collected ?s) = mset (map Square_f [1, 2, 3, 4, 5])"
    by blast
  then show ?thesis using w i n r q by auto
qed

section \<open>Bridge: depth-first flattening\<close>

lemma set_lane_simps [simp]:
  "br_lanes (set_lane j l s) = (br_lanes s)[j := l]"
  "br_done (set_lane j l s) = br_done s"
  "br_next (set_lane j l s) = br_next s"
  "br_outer_closed (set_lane j l s) = br_outer_closed s"
  "br_pc (set_lane j l s) = br_pc s"
  "br_collected (set_lane j l s) = br_collected s"
  "br_finished (set_lane j l s) = br_finished s"
  by (simp_all add: set_lane_def)

lemma br_CancelD:
  "br_step BR_Cancel s = Some s' \<Longrightarrow> \<not> br_done s \<and> s' = s\<lparr>br_done := True\<rparr>"
  by (simp split: if_split_asm)

lemma br_Inner_doneD:
  "br_step (BR_Inner_done j) s = Some s' \<Longrightarrow>
   j < length (br_lanes s) \<and> ln_values (br_lanes s ! j) \<noteq> [] \<and> \<not> ln_closed (br_lanes s ! j)
   \<and> br_done s \<and> s' = set_lane j ((br_lanes s ! j)\<lparr>ln_closed := True\<rparr>) s"
  by (simp split: if_split_asm)

lemma br_Inner_returnD:
  "br_step (BR_Inner_return j) s = Some s' \<Longrightarrow>
   j < length (br_lanes s) \<and> ln_values (br_lanes s ! j) = [] \<and> \<not> ln_closed (br_lanes s ! j)
   \<and> s' = set_lane j ((br_lanes s ! j)\<lparr>ln_closed := True\<rparr>) s"
  by (simp split: if_split_asm)

lemma br_Outer_sendD:
  "br_step BR_Outer_send s = Some s' \<Longrightarrow>
   br_next s < length (br_lanes s) \<and> \<not> br_outer_closed s \<and> br_pc s = BridgeSelect
   \<and> s' = (set_lane (br_next s) ((br_lanes s ! br_next s)\<lparr>ln_relay := RelaySelect\<rparr>) s)
                   \<lparr>br_next := Suc (br_next s), br_pc := BridgeRanging (br_next s)\<rparr>"
  by (simp split: if_split_asm)

lemma br_Outer_doneD:
  "br_step BR_Outer_done s = Some s' \<Longrightarrow>
   br_next s < length (br_lanes s) \<and> \<not> br_outer_closed s \<and> br_done s
   \<and> s' = s\<lparr>br_outer_closed := True\<rparr>"
  by (simp split: if_split_asm)

lemma br_Outer_returnD:
  "br_step BR_Outer_return s = Some s' \<Longrightarrow>
   \<not> br_next s < length (br_lanes s) \<and> \<not> br_outer_closed s
   \<and> s' = s\<lparr>br_outer_closed := True\<rparr>"
  by (simp split: if_split_asm)

lemma br_Bridge_doneD:
  "br_step BR_Bridge_done s = Some s' \<Longrightarrow>
   br_pc s = BridgeSelect \<and> br_done s \<and> s' = s\<lparr>br_pc := BridgeReturned\<rparr>"
  by (simp split: if_split_asm)

lemma br_Bridge_outer_closedD:
  "br_step BR_Bridge_outer_closed s = Some s' \<Longrightarrow>
   br_pc s = BridgeSelect \<and> br_outer_closed s \<and> s' = s\<lparr>br_pc := BridgeReturned\<rparr>"
  by (simp split: if_split_asm)

lemma br_Relay_doneD:
  "br_step (BR_Relay_done j) s = Some s' \<Longrightarrow>
   j < length (br_lanes s) \<and> ln_relay (br_lanes s ! j) = RelaySelect \<and> br_done s
   \<and> s' = set_lane j ((br_lanes s ! j)\<lparr>ln_relay := RelayReturned\<rparr>) s"
  by (simp split: if_split_asm)

lemma br_Relay_recvD:
  "br_step (BR_Relay_recv j) s = Some s' \<Longrightarrow>
   \<exists>val vals. j < length (br_lanes s) \<and> ln_relay (br_lanes s ! j) = RelaySelect
     \<and> \<not> ln_closed (br_lanes s ! j) \<and> ln_values (br_lanes s ! j) = val # vals
     \<and> s' = set_lane j ((br_lanes s ! j)\<lparr>ln_values := vals, ln_relay := RelaySend val\<rparr>) s"
  by (simp split: if_split_asm list.split_asm)

lemma br_Relay_closedD:
  "br_step (BR_Relay_closed j) s = Some s' \<Longrightarrow>
   j < length (br_lanes s) \<and> ln_relay (br_lanes s ! j) = RelaySelect \<and> ln_closed (br_lanes s ! j)
   \<and> s' = set_lane j ((br_lanes s ! j)\<lparr>ln_relay := RelayReturned\<rparr>) s"
  by (simp split: if_split_asm)

lemma br_Relay_send_doneD:
  "br_step (BR_Relay_send_done j) s = Some s' \<Longrightarrow>
   \<exists>val. j < length (br_lanes s) \<and> br_done s \<and> ln_relay (br_lanes s ! j) = RelaySend val
     \<and> s' = set_lane j ((br_lanes s ! j)\<lparr>ln_relay := RelayReturned\<rparr>) s"
  by (simp split: if_split_asm relay_pc.split_asm)

lemma br_Relay_sendD:
  "br_step (BR_Relay_send j) s = Some s' \<Longrightarrow>
   \<exists>val. j < length (br_lanes s) \<and> br_pc s = BridgeRanging j
     \<and> ln_relay (br_lanes s ! j) = RelaySend val
     \<and> s' = (set_lane j ((br_lanes s ! j)\<lparr>ln_relay := RelaySelect\<rparr>) s)
                     \<lparr>br_pc := BridgeSend j val\<rparr>"
  by (simp split: if_split_asm relay_pc.split_asm)

lemma br_Bridge_relay_closedD:
  "br_step BR_Bridge_relay_closed s = Some s' \<Longrightarrow>
   \<exists>j. br_pc s = BridgeRanging j \<and> j < length (br_lanes s)
     \<and> ln_relay (br_lanes s ! j) = RelayReturned \<and> s' = s\<lparr>br_pc := BridgeSelect\<rparr>"
  by (simp split: if_split_asm bridge_pc.split_asm)

lemma br_Bridge_send_doneD:
  "br_step BR_Bridge_send_done s = Some s' \<Longrightarrow>
   \<exists>j val. br_pc s = BridgeSend j val \<and> br_done s \<and> s' = s\<lparr>br_pc := BridgeReturned\<rparr>"
  by (simp split: if_split_asm bridge_pc.split_asm)

lemma br_Bridge_sendD:
  "br_step BR_Bridge_send s = Some s' \<Longrightarrow>
   \<exists>j val. br_pc s = BridgeSend j val \<and> \<not> br_finished s
     \<and> s' = s\<lparr>br_pc := BridgeRanging j, br_collected := br_collected s @ [val]\<rparr>"
  by (simp split: if_split_asm bridge_pc.split_asm)

lemma br_Consumer_endD:
  "br_step BR_Consumer_end s = Some s' \<Longrightarrow>
   br_pc s = BridgeReturned \<and> \<not> br_finished s \<and> s' = s\<lparr>br_finished := True\<rparr>"
  by (simp split: if_split_asm)

lemma lane_sum_update:
  assumes "j < length (br_lanes s)"
  shows "sum_list (map lane_left ((br_lanes s)[j := l])) + lane_left (br_lanes s ! j)
     = sum_list (map lane_left (br_lanes s)) + lane_left l"
  using sum_list_map_update[OF assms, of lane_left l] .


lemma lane_sum_less:
  assumes "j < length (br_lanes s)" and "lane_left l + k = lane_left (br_lanes s ! j)"
  shows "sum_list (map lane_left (br_lanes (set_lane j l s))) + k
     = sum_list (map lane_left (br_lanes s))"
  using lane_sum_update[OF assms(1), of l] assms(2) unfolding set_lane_simps by linarith

lemma br_measure_lane:
  assumes "j < length (br_lanes s)" and "lane_left l + Suc k = lane_left (br_lanes s ! j)"
  shows "br_measure (set_lane j l s) < br_measure s"
  using lane_sum_less[OF assms] unfolding br_measure_def set_lane_simps length_list_update
  by simp

lemma lane_left_closed: "\<not> ln_closed l \<Longrightarrow> lane_left (l\<lparr>ln_closed := True\<rparr>) + Suc 0 = lane_left l"
  by (simp add: lane_left_def)

lemma lane_left_returned:
  "ln_relay l = RelaySelect \<Longrightarrow> lane_left (l\<lparr>ln_relay := RelayReturned\<rparr>) + Suc 0 = lane_left l"
  "ln_relay l = RelaySend val \<Longrightarrow> lane_left (l\<lparr>ln_relay := RelayReturned\<rparr>) + Suc 2 = lane_left l"
  by (simp_all add: lane_left_def)

lemma lane_left_recv:
  "ln_values l = val # vals \<Longrightarrow> ln_relay l = RelaySelect \<Longrightarrow>
   lane_left (l\<lparr>ln_values := vals, ln_relay := RelaySend val\<rparr>) + Suc 0 = lane_left l"
  by (simp add: lane_left_def)

lemma lane_left_sent:
  "ln_relay l = RelaySend val \<Longrightarrow> lane_left (l\<lparr>ln_relay := RelaySelect\<rparr>) + 2 = lane_left l"
  by (simp add: lane_left_def)

lemma lane_left_started:
  "lane_left (l\<lparr>ln_relay := RelaySelect\<rparr>) \<le> lane_left l + 1"
  by (cases "ln_relay l") (simp_all add: lane_left_def)

lemma br_measure_step:
  assumes "br_step a s = Some s'"
  shows "br_measure s' < br_measure s"
proof (cases a)
  case BR_Cancel
  from br_CancelD[OF assms[unfolded BR_Cancel]] show ?thesis by (simp add: br_measure_def)
next
  case (BR_Inner_done j)
  from br_Inner_doneD[OF assms[unfolded BR_Inner_done]] have h: "j < length (br_lanes s)"
    "\<not> ln_closed (br_lanes s ! j)"
    "s' = set_lane j ((br_lanes s ! j)\<lparr>ln_closed := True\<rparr>) s" by blast+
  show ?thesis unfolding h(3) using h(1) lane_left_closed[OF h(2)] by (rule br_measure_lane)
next
  case (BR_Inner_return j)
  from br_Inner_returnD[OF assms[unfolded BR_Inner_return]] have h: "j < length (br_lanes s)"
    "\<not> ln_closed (br_lanes s ! j)"
    "s' = set_lane j ((br_lanes s ! j)\<lparr>ln_closed := True\<rparr>) s" by blast+
  show ?thesis unfolding h(3) using h(1) lane_left_closed[OF h(2)] by (rule br_measure_lane)
next
  case BR_Outer_send
  from br_Outer_sendD[OF assms[unfolded BR_Outer_send]] have h: "br_next s < length (br_lanes s)"
    "br_pc s = BridgeSelect"
    "s' = (set_lane (br_next s) ((br_lanes s ! br_next s)\<lparr>ln_relay := RelaySelect\<rparr>) s)
                   \<lparr>br_next := Suc (br_next s), br_pc := BridgeRanging (br_next s)\<rparr>" by blast+
  have "sum_list (map lane_left ((br_lanes s)[br_next s := (br_lanes s ! br_next s)\<lparr>ln_relay := RelaySelect\<rparr>]))
      \<le> sum_list (map lane_left (br_lanes s)) + 1"
    using lane_sum_update[OF h(1), of "(br_lanes s ! br_next s)\<lparr>ln_relay := RelaySelect\<rparr>"]
      lane_left_started[of "br_lanes s ! br_next s"] by linarith
  moreover have "3 * (length (br_lanes s) - Suc (br_next s)) + 3 = 3 * (length (br_lanes s) - br_next s)"
    using h(1) by simp
  ultimately show ?thesis unfolding br_measure_def h(3) using h(2) by simp
next
  case BR_Outer_done
  from br_Outer_doneD[OF assms[unfolded BR_Outer_done]] show ?thesis by (simp add: br_measure_def)
next
  case BR_Outer_return
  from br_Outer_returnD[OF assms[unfolded BR_Outer_return]] show ?thesis by (simp add: br_measure_def)
next
  case BR_Bridge_done
  from br_Bridge_doneD[OF assms[unfolded BR_Bridge_done]] show ?thesis by (simp add: br_measure_def)
next
  case BR_Bridge_outer_closed
  from br_Bridge_outer_closedD[OF assms[unfolded BR_Bridge_outer_closed]] show ?thesis by (simp add: br_measure_def)
next
  case (BR_Relay_done j)
  from br_Relay_doneD[OF assms[unfolded BR_Relay_done]] have h: "j < length (br_lanes s)"
    "ln_relay (br_lanes s ! j) = RelaySelect"
    "s' = set_lane j ((br_lanes s ! j)\<lparr>ln_relay := RelayReturned\<rparr>) s" by blast+
  show ?thesis unfolding h(3) using h(1) lane_left_returned(1)[OF h(2)] by (rule br_measure_lane)
next
  case (BR_Relay_recv j)
  from br_Relay_recvD[OF assms[unfolded BR_Relay_recv]] obtain val vals where h: "j < length (br_lanes s)"
    "ln_relay (br_lanes s ! j) = RelaySelect" "ln_values (br_lanes s ! j) = val # vals"
    "s' = set_lane j ((br_lanes s ! j)\<lparr>ln_values := vals, ln_relay := RelaySend val\<rparr>) s"
    by blast
  show ?thesis unfolding h(4) using h(1) lane_left_recv[OF h(3,2)] by (rule br_measure_lane)
next
  case (BR_Relay_closed j)
  from br_Relay_closedD[OF assms[unfolded BR_Relay_closed]] have h: "j < length (br_lanes s)"
    "ln_relay (br_lanes s ! j) = RelaySelect"
    "s' = set_lane j ((br_lanes s ! j)\<lparr>ln_relay := RelayReturned\<rparr>) s" by blast+
  show ?thesis unfolding h(3) using h(1) lane_left_returned(1)[OF h(2)] by (rule br_measure_lane)
next
  case (BR_Relay_send_done j)
  from br_Relay_send_doneD[OF assms[unfolded BR_Relay_send_done]] obtain val where h: "j < length (br_lanes s)"
    "ln_relay (br_lanes s ! j) = RelaySend val"
    "s' = set_lane j ((br_lanes s ! j)\<lparr>ln_relay := RelayReturned\<rparr>) s" by blast
  show ?thesis unfolding h(3) using h(1) lane_left_returned(2)[OF h(2)] by (rule br_measure_lane)
next
  case (BR_Relay_send j)
  from br_Relay_sendD[OF assms[unfolded BR_Relay_send]] obtain val where h: "j < length (br_lanes s)"
    "br_pc s = BridgeRanging j" "ln_relay (br_lanes s ! j) = RelaySend val"
    "s' = (set_lane j ((br_lanes s ! j)\<lparr>ln_relay := RelaySelect\<rparr>) s)
                     \<lparr>br_pc := BridgeSend j val\<rparr>" by blast
  have "sum_list (map lane_left ((br_lanes s)[j := (br_lanes s ! j)\<lparr>ln_relay := RelaySelect\<rparr>])) + 2
      = sum_list (map lane_left (br_lanes s))"
    using lane_sum_update[OF h(1), of "(br_lanes s ! j)\<lparr>ln_relay := RelaySelect\<rparr>"]
      lane_left_sent[OF h(3)] by linarith
  then show ?thesis unfolding br_measure_def h(4) using h(2) by simp
next
  case BR_Bridge_relay_closed
  from br_Bridge_relay_closedD[OF assms[unfolded BR_Bridge_relay_closed]] show ?thesis by (auto simp: br_measure_def)
next
  case BR_Bridge_send_done
  from br_Bridge_send_doneD[OF assms[unfolded BR_Bridge_send_done]] show ?thesis by (auto simp: br_measure_def)
next
  case BR_Bridge_send
  from br_Bridge_sendD[OF assms[unfolded BR_Bridge_send]] show ?thesis by (auto simp: br_measure_def)
next
  case BR_Consumer_end
  from br_Consumer_endD[OF assms[unfolded BR_Consumer_end]] show ?thesis by (simp add: br_measure_def)
qed


lemma br_ctl_invD:
  assumes "br_ctl_inv s"
  shows "br_next s \<le> length (br_lanes s)"
    and "br_finished s \<Longrightarrow> br_pc s = BridgeReturned"
    and "br_pc s = BridgeReturned \<Longrightarrow> br_outer_closed s \<or> br_done s"
    and "\<And>j. bridge_lane (br_pc s) = Some j \<Longrightarrow> j < br_next s"
    and "\<And>j. j < length (br_lanes s) \<Longrightarrow>
           (ln_relay (br_lanes s ! j) = RelayUnstarted) = (br_next s \<le> j)"
    and "\<And>j. \<not> br_done s \<Longrightarrow> j < length (br_lanes s) \<Longrightarrow>
           relay_active (ln_relay (br_lanes s ! j)) \<Longrightarrow> bridge_lane (br_pc s) = Some j"
    and "\<And>j. \<not> br_done s \<Longrightarrow> j < length (br_lanes s) \<Longrightarrow>
           ln_relay (br_lanes s ! j) = RelayReturned \<Longrightarrow> ln_closed (br_lanes s ! j)"
    and "\<not> br_done s \<Longrightarrow> br_outer_closed s \<Longrightarrow> br_next s = length (br_lanes s)"
proof -
  note I = assms[unfolded br_ctl_inv_def]
  show "br_next s \<le> length (br_lanes s)" by (rule I[THEN conjunct1])
  show "br_finished s \<Longrightarrow> br_pc s = BridgeReturned"
    by (rule I[THEN conjunct2, THEN conjunct1, rule_format])
  show "br_pc s = BridgeReturned \<Longrightarrow> br_outer_closed s \<or> br_done s"
    by (rule I[THEN conjunct2, THEN conjunct2, THEN conjunct1, rule_format])
  show "\<And>j. bridge_lane (br_pc s) = Some j \<Longrightarrow> j < br_next s"
    by (rule I[THEN conjunct2, THEN conjunct2, THEN conjunct2, THEN conjunct1, rule_format])
  show "\<And>j. j < length (br_lanes s) \<Longrightarrow>
           (ln_relay (br_lanes s ! j) = RelayUnstarted) = (br_next s \<le> j)"
    by (rule I[THEN conjunct2, THEN conjunct2, THEN conjunct2, THEN conjunct2, THEN conjunct1,
          rule_format])
  note R = I[THEN conjunct2, THEN conjunct2, THEN conjunct2, THEN conjunct2, THEN conjunct2]
  show "\<And>j. \<not> br_done s \<Longrightarrow> j < length (br_lanes s) \<Longrightarrow>
           relay_active (ln_relay (br_lanes s ! j)) \<Longrightarrow> bridge_lane (br_pc s) = Some j"
    using R by simp
  show "\<And>j. \<not> br_done s \<Longrightarrow> j < length (br_lanes s) \<Longrightarrow>
           ln_relay (br_lanes s ! j) = RelayReturned \<Longrightarrow> ln_closed (br_lanes s ! j)"
    using R by simp
  show "\<not> br_done s \<Longrightarrow> br_outer_closed s \<Longrightarrow> br_next s = length (br_lanes s)"
    using R by simp
qed

lemma br_ctl_invI:
  assumes "br_next s \<le> length (br_lanes s)"
    and "br_finished s \<Longrightarrow> br_pc s = BridgeReturned"
    and "br_pc s = BridgeReturned \<Longrightarrow> br_outer_closed s \<or> br_done s"
    and "\<And>j. bridge_lane (br_pc s) = Some j \<Longrightarrow> j < br_next s"
    and "\<And>j. j < length (br_lanes s) \<Longrightarrow>
           (ln_relay (br_lanes s ! j) = RelayUnstarted) = (br_next s \<le> j)"
    and "\<And>j. \<not> br_done s \<Longrightarrow> j < length (br_lanes s) \<Longrightarrow>
           relay_active (ln_relay (br_lanes s ! j)) \<Longrightarrow> bridge_lane (br_pc s) = Some j"
    and "\<And>j. \<not> br_done s \<Longrightarrow> j < length (br_lanes s) \<Longrightarrow>
           ln_relay (br_lanes s ! j) = RelayReturned \<Longrightarrow> ln_closed (br_lanes s ! j)"
    and "\<not> br_done s \<Longrightarrow> br_outer_closed s \<Longrightarrow> br_next s = length (br_lanes s)"
  shows "br_ctl_inv s"
  unfolding br_ctl_inv_def
  by (intro conjI allI impI) (use assms in \<open>simp_all (no_asm_simp)\<close>)

lemma br_ctl_inv_step:
  assumes inv: "br_ctl_inv s" and step: "br_step a s = Some s'"
  shows "br_ctl_inv s'"
proof (cases a)
  case BR_Cancel
  from br_CancelD[OF step[unfolded BR_Cancel]] have h: "s' = s\<lparr>br_done := True\<rparr>" by simp
  show ?thesis using inv unfolding h by (auto simp: br_ctl_inv_def)
next
  case (BR_Inner_done j)
  from br_Inner_doneD[OF step[unfolded BR_Inner_done]] have h: "j < length (br_lanes s)" "br_done s"
    "s' = set_lane j ((br_lanes s ! j)\<lparr>ln_closed := True\<rparr>) s" by blast+
  show ?thesis using inv h(1,2) unfolding h(3) by (auto simp: br_ctl_inv_def nth_list_update)
next
  case (BR_Inner_return j)
  from br_Inner_returnD[OF step[unfolded BR_Inner_return]] have h: "j < length (br_lanes s)"
    "s' = set_lane j ((br_lanes s ! j)\<lparr>ln_closed := True\<rparr>) s" by blast+
  show ?thesis using inv h(1) unfolding h(2) by (auto simp: br_ctl_inv_def nth_list_update)
next
  case BR_Outer_send
  from br_Outer_sendD[OF step[unfolded BR_Outer_send]] have h: "br_next s < length (br_lanes s)"
    "\<not> br_outer_closed s" "br_pc s = BridgeSelect"
    "s' = (set_lane (br_next s) ((br_lanes s ! br_next s)\<lparr>ln_relay := RelaySelect\<rparr>) s)
                   \<lparr>br_next := Suc (br_next s), br_pc := BridgeRanging (br_next s)\<rparr>" by blast+
  show ?thesis using inv h(1,2,3) unfolding h(4)
    by (auto simp: br_ctl_inv_def nth_list_update)
next
  case BR_Outer_done
  from br_Outer_doneD[OF step[unfolded BR_Outer_done]] have h: "br_done s"
    "s' = s\<lparr>br_outer_closed := True\<rparr>" by blast+
  note D = br_ctl_invD[OF inv]
  show ?thesis unfolding h(2)
  proof (rule br_ctl_invI)
    fix j assume "j < length (br_lanes (s\<lparr>br_outer_closed := True\<rparr>))"
    then show "(ln_relay (br_lanes (s\<lparr>br_outer_closed := True\<rparr>) ! j) = RelayUnstarted)
        = (br_next (s\<lparr>br_outer_closed := True\<rparr>) \<le> j)"
      using D(5)[of j] by simp
  qed (use D(1,2,4) h(1) in simp_all)
next
  case BR_Outer_return
  from br_Outer_returnD[OF step[unfolded BR_Outer_return]] have h: "\<not> br_next s < length (br_lanes s)"
    "s' = s\<lparr>br_outer_closed := True\<rparr>" by blast+
  show ?thesis using inv h(1) unfolding h(2) by (auto simp: br_ctl_inv_def)
next
  case BR_Bridge_done
  from br_Bridge_doneD[OF step[unfolded BR_Bridge_done]] have h: "br_pc s = BridgeSelect" "br_done s"
    "s' = s\<lparr>br_pc := BridgeReturned\<rparr>" by blast+
  show ?thesis using inv h(1,2) unfolding h(3) by (auto simp: br_ctl_inv_def)
next
  case BR_Bridge_outer_closed
  from br_Bridge_outer_closedD[OF step[unfolded BR_Bridge_outer_closed]] have h:
    "br_pc s = BridgeSelect" "br_outer_closed s" "s' = s\<lparr>br_pc := BridgeReturned\<rparr>" by blast+
  show ?thesis using inv h(1,2) unfolding h(3) by (auto simp: br_ctl_inv_def)
next
  case (BR_Relay_done j)
  from br_Relay_doneD[OF step[unfolded BR_Relay_done]] have h: "j < length (br_lanes s)"
    "ln_relay (br_lanes s ! j) = RelaySelect" "br_done s"
    "s' = set_lane j ((br_lanes s ! j)\<lparr>ln_relay := RelayReturned\<rparr>) s" by blast+
  show ?thesis using inv h(1,2,3) unfolding h(4) by (auto simp: br_ctl_inv_def nth_list_update)
next
  case (BR_Relay_recv j)
  from br_Relay_recvD[OF step[unfolded BR_Relay_recv]] obtain val vals where
    h: "j < length (br_lanes s)" "ln_relay (br_lanes s ! j) = RelaySelect"
    "s' = set_lane j ((br_lanes s ! j)\<lparr>ln_values := vals, ln_relay := RelaySend val\<rparr>) s"
    by blast
  note D = br_ctl_invD[OF inv]
  let ?l = "(br_lanes s ! j)\<lparr>ln_values := vals, ln_relay := RelaySend val\<rparr>"
  show ?thesis unfolding h(3)
  proof (rule br_ctl_invI)
    fix i assume i: "i < length (br_lanes (set_lane j ?l s))"
    show "(ln_relay (br_lanes (set_lane j ?l s) ! i) = RelayUnstarted)
        = (br_next (set_lane j ?l s) \<le> i)"
      using D(5)[of i] i h(1,2) by (cases "i = j") simp_all
  next
    fix i assume i: "\<not> br_done (set_lane j ?l s)" "i < length (br_lanes (set_lane j ?l s))"
      "relay_active (ln_relay (br_lanes (set_lane j ?l s) ! i))"
    show "bridge_lane (br_pc (set_lane j ?l s)) = Some i"
      using D(6)[of i] i h(1,2) by (cases "i = j") simp_all
  next
    fix i assume i: "\<not> br_done (set_lane j ?l s)" "i < length (br_lanes (set_lane j ?l s))"
      "ln_relay (br_lanes (set_lane j ?l s) ! i) = RelayReturned"
    show "ln_closed (br_lanes (set_lane j ?l s) ! i)"
      using D(7)[of i] i h(1,2) by (cases "i = j") simp_all
  qed (use D(1,2,3,4,8) in simp_all)
next
  case (BR_Relay_closed j)
  from br_Relay_closedD[OF step[unfolded BR_Relay_closed]] have h: "j < length (br_lanes s)"
    "ln_relay (br_lanes s ! j) = RelaySelect" "ln_closed (br_lanes s ! j)"
    "s' = set_lane j ((br_lanes s ! j)\<lparr>ln_relay := RelayReturned\<rparr>) s" by blast+
  note D = br_ctl_invD[OF inv]
  let ?l = "(br_lanes s ! j)\<lparr>ln_relay := RelayReturned\<rparr>"
  show ?thesis unfolding h(4)
  proof (rule br_ctl_invI)
    fix i assume i: "i < length (br_lanes (set_lane j ?l s))"
    show "(ln_relay (br_lanes (set_lane j ?l s) ! i) = RelayUnstarted)
        = (br_next (set_lane j ?l s) \<le> i)"
      using D(5)[of i] i h(1,2) by (cases "i = j") simp_all
  next
    fix i assume i: "\<not> br_done (set_lane j ?l s)" "i < length (br_lanes (set_lane j ?l s))"
      "relay_active (ln_relay (br_lanes (set_lane j ?l s) ! i))"
    show "bridge_lane (br_pc (set_lane j ?l s)) = Some i"
      using D(6)[of i] i h(1,2) by (cases "i = j") simp_all
  next
    fix i assume i: "\<not> br_done (set_lane j ?l s)" "i < length (br_lanes (set_lane j ?l s))"
      "ln_relay (br_lanes (set_lane j ?l s) ! i) = RelayReturned"
    show "ln_closed (br_lanes (set_lane j ?l s) ! i)"
      using D(7)[of i] i h(1,3) by (cases "i = j") simp_all
  qed (use D(1,2,3,4,8) in simp_all)
next
  case (BR_Relay_send_done j)
  from br_Relay_send_doneD[OF step[unfolded BR_Relay_send_done]] obtain val where
    h: "j < length (br_lanes s)" "br_done s" "ln_relay (br_lanes s ! j) = RelaySend val"
    "s' = set_lane j ((br_lanes s ! j)\<lparr>ln_relay := RelayReturned\<rparr>) s" by blast
  show ?thesis using inv h(1,2,3) unfolding h(4) by (auto simp: br_ctl_inv_def nth_list_update)
next
  case (BR_Relay_send j)
  from br_Relay_sendD[OF step[unfolded BR_Relay_send]] obtain val where
    h: "j < length (br_lanes s)" "br_pc s = BridgeRanging j"
    "ln_relay (br_lanes s ! j) = RelaySend val"
    "s' = (set_lane j ((br_lanes s ! j)\<lparr>ln_relay := RelaySelect\<rparr>) s)
                     \<lparr>br_pc := BridgeSend j val\<rparr>" by blast
  show ?thesis using inv h(1,2,3) unfolding h(4) by (auto simp: br_ctl_inv_def nth_list_update)
next
  case BR_Bridge_relay_closed
  from br_Bridge_relay_closedD[OF step[unfolded BR_Bridge_relay_closed]] obtain j where
    h: "br_pc s = BridgeRanging j" "j < length (br_lanes s)"
    "ln_relay (br_lanes s ! j) = RelayReturned" "s' = s\<lparr>br_pc := BridgeSelect\<rparr>" by blast
  show ?thesis using inv h(1,2,3) unfolding h(4) by (auto simp: br_ctl_inv_def)
next
  case BR_Bridge_send_done
  from br_Bridge_send_doneD[OF step[unfolded BR_Bridge_send_done]] obtain j val where
    h: "br_pc s = BridgeSend j val" "br_done s" "s' = s\<lparr>br_pc := BridgeReturned\<rparr>" by blast
  show ?thesis using inv h(1,2) unfolding h(3) by (auto simp: br_ctl_inv_def)
next
  case BR_Bridge_send
  from br_Bridge_sendD[OF step[unfolded BR_Bridge_send]] obtain j val where
    h: "br_pc s = BridgeSend j val" "\<not> br_finished s"
    "s' = s\<lparr>br_pc := BridgeRanging j, br_collected := br_collected s @ [val]\<rparr>" by blast
  show ?thesis using inv h(1,2) unfolding h(3) by (auto simp: br_ctl_inv_def)
next
  case BR_Consumer_end
  from br_Consumer_endD[OF step[unfolded BR_Consumer_end]] have
    h: "br_pc s = BridgeReturned" "s' = s\<lparr>br_finished := True\<rparr>" by blast+
  show ?thesis using inv h(1) unfolding h(2) by (auto simp: br_ctl_inv_def)
qed


lemma br_data_invD:
  assumes "br_data_inv inner s"
  shows "\<not> br_done s"
    and "length (br_lanes s) = length inner"
    and "br_collected s @ br_pending s = concat (take (br_next s) inner)"
    and "\<And>j. bridge_lane (br_pc s) = Some j \<Longrightarrow> Suc j = br_next s"
    and "\<And>j. j < length inner \<Longrightarrow> br_next s \<le> j \<Longrightarrow> ln_values (br_lanes s ! j) = inner ! j"
    and "\<And>j. j < length inner \<Longrightarrow> ln_closed (br_lanes s ! j) \<Longrightarrow> ln_values (br_lanes s ! j) = []"
    and "\<And>j. j < br_drained s \<Longrightarrow>
           ln_values (br_lanes s ! j) = [] \<and> ln_closed (br_lanes s ! j)
           \<and> ln_relay (br_lanes s ! j) = RelayReturned"
    and "br_pc s = BridgeReturned \<Longrightarrow> br_outer_closed s"
proof -
  note I = assms[unfolded br_data_inv_def]
  show "\<not> br_done s" by (rule I[THEN conjunct1])
  show "length (br_lanes s) = length inner" by (rule I[THEN conjunct2, THEN conjunct1])
  show "br_collected s @ br_pending s = concat (take (br_next s) inner)"
    by (rule I[THEN conjunct2, THEN conjunct2, THEN conjunct1])
  show "\<And>j. bridge_lane (br_pc s) = Some j \<Longrightarrow> Suc j = br_next s"
    by (rule I[THEN conjunct2, THEN conjunct2, THEN conjunct2, THEN conjunct1, rule_format])
  show "\<And>j. j < length inner \<Longrightarrow> br_next s \<le> j \<Longrightarrow> ln_values (br_lanes s ! j) = inner ! j"
    by (rule I[THEN conjunct2, THEN conjunct2, THEN conjunct2, THEN conjunct2, THEN conjunct1,
          rule_format])
  show "\<And>j. j < length inner \<Longrightarrow> ln_closed (br_lanes s ! j) \<Longrightarrow> ln_values (br_lanes s ! j) = []"
    by (rule I[THEN conjunct2, THEN conjunct2, THEN conjunct2, THEN conjunct2, THEN conjunct2,
          THEN conjunct1, rule_format])
  show "\<And>j. j < br_drained s \<Longrightarrow>
           ln_values (br_lanes s ! j) = [] \<and> ln_closed (br_lanes s ! j)
           \<and> ln_relay (br_lanes s ! j) = RelayReturned"
    by (rule I[THEN conjunct2, THEN conjunct2, THEN conjunct2, THEN conjunct2, THEN conjunct2,
          THEN conjunct2, THEN conjunct1, rule_format])
  show "br_pc s = BridgeReturned \<Longrightarrow> br_outer_closed s"
    by (rule I[THEN conjunct2, THEN conjunct2, THEN conjunct2, THEN conjunct2, THEN conjunct2,
          THEN conjunct2, THEN conjunct2, rule_format])
qed

lemma br_data_invI:
  assumes "\<not> br_done s"
    and "length (br_lanes s) = length inner"
    and "br_collected s @ br_pending s = concat (take (br_next s) inner)"
    and "\<And>j. bridge_lane (br_pc s) = Some j \<Longrightarrow> Suc j = br_next s"
    and "\<And>j. j < length inner \<Longrightarrow> br_next s \<le> j \<Longrightarrow> ln_values (br_lanes s ! j) = inner ! j"
    and "\<And>j. j < length inner \<Longrightarrow> ln_closed (br_lanes s ! j) \<Longrightarrow> ln_values (br_lanes s ! j) = []"
    and "\<And>j. j < br_drained s \<Longrightarrow>
           ln_values (br_lanes s ! j) = [] \<and> ln_closed (br_lanes s ! j)
           \<and> ln_relay (br_lanes s ! j) = RelayReturned"
    and "br_pc s = BridgeReturned \<Longrightarrow> br_outer_closed s"
  shows "br_data_inv inner s"
  unfolding br_data_inv_def
  by (intro conjI allI impI) (use assms in \<open>simp_all (no_asm_simp)\<close>)

lemma br_pending_lane:
  "bridge_lane (br_pc s) = Some j \<Longrightarrow>
   br_pending s = bridge_item (br_pc s) @ relay_item (ln_relay (br_lanes s ! j))
     @ ln_values (br_lanes s ! j)"
  by (simp add: br_pending_def)

lemma br_pending_none: "bridge_lane (br_pc s) = None \<Longrightarrow> br_pending s = []"
  by (simp add: br_pending_def)

lemma br_drained_lane: "bridge_lane (br_pc s) = Some j \<Longrightarrow> br_drained s = j"
  by (simp add: br_drained_def)

lemma br_drained_none: "bridge_lane (br_pc s) = None \<Longrightarrow> br_drained s = br_next s"
  by (simp add: br_drained_def)

lemma br_drained_set_lane [simp]: "br_drained (set_lane j l s) = br_drained s"
  by (simp add: br_drained_def split: option.split)

lemma br_pending_flags [simp]:
  "br_pending (s\<lparr>br_outer_closed := x\<rparr>) = br_pending s"
  "br_pending (s\<lparr>br_finished := y\<rparr>) = br_pending s"
  "br_drained (s\<lparr>br_outer_closed := x\<rparr>) = br_drained s"
  "br_drained (s\<lparr>br_finished := y\<rparr>) = br_drained s"
  by (simp_all add: br_pending_def br_drained_def split: option.split)

lemma br_drained_le: "br_data_inv inner s \<Longrightarrow> br_drained s \<le> br_next s"
  using br_data_invD(4)[of inner s] by (cases "bridge_lane (br_pc s)") (auto simp: br_drained_def)

lemma br_data_inv_step:
  assumes ctl: "br_ctl_inv s" and inv: "br_data_inv inner s" and nc: "a \<noteq> BR_Cancel"
    and step: "br_step a s = Some s'"
  shows "br_data_inv inner s'"
proof -
  note C = br_ctl_invD[OF ctl]
  note D = br_data_invD[OF inv]
  show ?thesis
  proof (cases a)
    case BR_Cancel
    then show ?thesis using nc by simp
  next
    case (BR_Inner_done j)
    from br_Inner_doneD[OF step[unfolded BR_Inner_done]] D(1) show ?thesis by simp
  next
    case (BR_Inner_return j)
    from br_Inner_returnD[OF step[unfolded BR_Inner_return]] have h: "j < length (br_lanes s)"
      "ln_values (br_lanes s ! j) = []"
      "s' = set_lane j ((br_lanes s ! j)\<lparr>ln_closed := True\<rparr>) s" by blast+
    let ?l = "(br_lanes s ! j)\<lparr>ln_closed := True\<rparr>"
    have pend: "br_pending (set_lane j ?l s) = br_pending s"
      using h(1) by (cases "bridge_lane (br_pc s)") (auto simp: br_pending_def nth_list_update)
    show ?thesis unfolding h(3)
    proof (rule br_data_invI)
      show "br_collected (set_lane j ?l s) @ br_pending (set_lane j ?l s)
          = concat (take (br_next (set_lane j ?l s)) inner)"
        using D(3) pend by simp
    next
      fix i assume "i < length inner" "br_next (set_lane j ?l s) \<le> i"
      then show "ln_values (br_lanes (set_lane j ?l s) ! i) = inner ! i"
        using D(5)[of i] h(1) by (cases "i = j") simp_all
    next
      fix i assume "i < length inner" "ln_closed (br_lanes (set_lane j ?l s) ! i)"
      then show "ln_values (br_lanes (set_lane j ?l s) ! i) = []"
        using D(6)[of i] h(1,2) by (cases "i = j") simp_all
    next
      fix i assume "i < br_drained (set_lane j ?l s)"
      then show "ln_values (br_lanes (set_lane j ?l s) ! i) = []
          \<and> ln_closed (br_lanes (set_lane j ?l s) ! i)
          \<and> ln_relay (br_lanes (set_lane j ?l s) ! i) = RelayReturned"
        using D(7)[of i] h(1) by (cases "i = j") simp_all
    qed (use D(1,2,4,8) in simp_all)
  next
    case BR_Outer_send
    from br_Outer_sendD[OF step[unfolded BR_Outer_send]] have h: "br_next s < length (br_lanes s)"
      "\<not> br_outer_closed s" "br_pc s = BridgeSelect"
      "s' = (set_lane (br_next s) ((br_lanes s ! br_next s)\<lparr>ln_relay := RelaySelect\<rparr>) s)
                   \<lparr>br_next := Suc (br_next s), br_pc := BridgeRanging (br_next s)\<rparr>" by blast+
    let ?n = "br_next s"
    let ?l = "(br_lanes s ! ?n)\<lparr>ln_relay := RelaySelect\<rparr>"
    let ?s' = "(set_lane ?n ?l s)\<lparr>br_next := Suc ?n, br_pc := BridgeRanging ?n\<rparr>"
    have n: "?n < length inner" using h(1) D(2) by simp
    have col: "br_collected s = concat (take ?n inner)"
      using D(3) h(3) by (simp add: br_pending_def)
    have val: "ln_values (br_lanes s ! ?n) = inner ! ?n" using D(5)[of ?n] n by simp
    have pend: "br_pending ?s' = inner ! ?n" using h(1) val by (simp add: br_pending_def)
    have dr: "br_drained ?s' = ?n" by (simp add: br_drained_def)
    have dr0: "br_drained s = ?n" using h(3) by (simp add: br_drained_def)
    show ?thesis unfolding h(4)
    proof (rule br_data_invI)
      show "br_collected ?s' @ br_pending ?s' = concat (take (br_next ?s') inner)"
        unfolding pend using col n by (simp add: take_Suc_conv_app_nth)
    next
      fix i assume "i < length inner" "br_next ?s' \<le> i"
      then show "ln_values (br_lanes ?s' ! i) = inner ! i"
        using D(5)[of i] by simp
    next
      fix i assume "i < length inner" "ln_closed (br_lanes ?s' ! i)"
      then show "ln_values (br_lanes ?s' ! i) = []"
        using D(6)[of i] h(1) by (cases "i = ?n") simp_all
    next
      fix i assume "i < br_drained ?s'"
      then have "i < ?n" unfolding dr .
      then show "ln_values (br_lanes ?s' ! i) = [] \<and> ln_closed (br_lanes ?s' ! i)
          \<and> ln_relay (br_lanes ?s' ! i) = RelayReturned"
        using D(7)[of i] dr0 by simp
    qed (use D(1,2) in simp_all)
  next
    case BR_Outer_done
    from br_Outer_doneD[OF step[unfolded BR_Outer_done]] D(1) show ?thesis by simp
  next
    case BR_Outer_return
    from br_Outer_returnD[OF step[unfolded BR_Outer_return]] have
      h: "s' = s\<lparr>br_outer_closed := True\<rparr>" by blast
    show ?thesis unfolding h
    proof (rule br_data_invI)
      fix i assume "i < br_drained (s\<lparr>br_outer_closed := True\<rparr>)"
      then show "ln_values (br_lanes (s\<lparr>br_outer_closed := True\<rparr>) ! i) = []
          \<and> ln_closed (br_lanes (s\<lparr>br_outer_closed := True\<rparr>) ! i)
          \<and> ln_relay (br_lanes (s\<lparr>br_outer_closed := True\<rparr>) ! i) = RelayReturned"
        using D(7)[of i] by simp
    qed (use D(1,2,3,4,5,6) in simp_all)
  next
    case BR_Bridge_done
    from br_Bridge_doneD[OF step[unfolded BR_Bridge_done]] D(1) show ?thesis by simp
  next
    case BR_Bridge_outer_closed
    from br_Bridge_outer_closedD[OF step[unfolded BR_Bridge_outer_closed]] have
      h: "br_pc s = BridgeSelect" "br_outer_closed s" "s' = s\<lparr>br_pc := BridgeReturned\<rparr>"
      by blast+
    show ?thesis unfolding h(3)
    proof (rule br_data_invI)
      show "br_collected (s\<lparr>br_pc := BridgeReturned\<rparr>) @ br_pending (s\<lparr>br_pc := BridgeReturned\<rparr>)
          = concat (take (br_next (s\<lparr>br_pc := BridgeReturned\<rparr>)) inner)"
        using D(3) h(1) by (simp add: br_pending_def)
    next
      fix i assume "i < br_drained (s\<lparr>br_pc := BridgeReturned\<rparr>)"
      then show "ln_values (br_lanes (s\<lparr>br_pc := BridgeReturned\<rparr>) ! i) = []
          \<and> ln_closed (br_lanes (s\<lparr>br_pc := BridgeReturned\<rparr>) ! i)
          \<and> ln_relay (br_lanes (s\<lparr>br_pc := BridgeReturned\<rparr>) ! i) = RelayReturned"
        using D(7)[of i] h(1) by (simp add: br_drained_def)
    qed (use D(1,2,5,6) h(2) in simp_all)
  next
    case (BR_Relay_done j)
    from br_Relay_doneD[OF step[unfolded BR_Relay_done]] D(1) show ?thesis by simp
  next
    case (BR_Relay_recv j)
    from br_Relay_recvD[OF step[unfolded BR_Relay_recv]] obtain val vals where
      h: "j < length (br_lanes s)" "ln_relay (br_lanes s ! j) = RelaySelect"
      "\<not> ln_closed (br_lanes s ! j)" "ln_values (br_lanes s ! j) = val # vals"
      "s' = set_lane j ((br_lanes s ! j)\<lparr>ln_values := vals, ln_relay := RelaySend val\<rparr>) s"
      by blast
    let ?l = "(br_lanes s ! j)\<lparr>ln_values := vals, ln_relay := RelaySend val\<rparr>"
    have bl: "bridge_lane (br_pc s) = Some j" using C(6)[of j] D(1) h(1,2) by simp
    have nx: "Suc j = br_next s" using D(4)[OF bl] .
    have dr: "br_drained s = j" using bl by (rule br_drained_lane)
    have pend: "br_pending (set_lane j ?l s) = br_pending s"
      using h(1,2,4) bl by (simp add: br_pending_def)
    show ?thesis unfolding h(5)
    proof (rule br_data_invI)
      show "br_collected (set_lane j ?l s) @ br_pending (set_lane j ?l s)
          = concat (take (br_next (set_lane j ?l s)) inner)"
        using D(3) pend by simp
    next
      fix i assume "i < length inner" "br_next (set_lane j ?l s) \<le> i"
      then show "ln_values (br_lanes (set_lane j ?l s) ! i) = inner ! i"
        using D(5)[of i] nx by simp
    next
      fix i assume "i < length inner" "ln_closed (br_lanes (set_lane j ?l s) ! i)"
      then show "ln_values (br_lanes (set_lane j ?l s) ! i) = []"
        using D(6)[of i] h(1,3) by (cases "i = j") simp_all
    next
      fix i assume "i < br_drained (set_lane j ?l s)"
      then show "ln_values (br_lanes (set_lane j ?l s) ! i) = []
          \<and> ln_closed (br_lanes (set_lane j ?l s) ! i)
          \<and> ln_relay (br_lanes (set_lane j ?l s) ! i) = RelayReturned"
        using D(7)[of i] dr by simp
    qed (use D(1,2,4,8) in simp_all)
  next
    case (BR_Relay_closed j)
    from br_Relay_closedD[OF step[unfolded BR_Relay_closed]] have h: "j < length (br_lanes s)"
      "ln_relay (br_lanes s ! j) = RelaySelect" "ln_closed (br_lanes s ! j)"
      "s' = set_lane j ((br_lanes s ! j)\<lparr>ln_relay := RelayReturned\<rparr>) s" by blast+
    let ?l = "(br_lanes s ! j)\<lparr>ln_relay := RelayReturned\<rparr>"
    have bl: "bridge_lane (br_pc s) = Some j" using C(6)[of j] D(1) h(1,2) by simp
    have nx: "Suc j = br_next s" using D(4)[OF bl] .
    have dr: "br_drained s = j" using bl by (rule br_drained_lane)
    have pend: "br_pending (set_lane j ?l s) = br_pending s"
      using h(1,2) bl by (simp add: br_pending_def)
    show ?thesis unfolding h(4)
    proof (rule br_data_invI)
      show "br_collected (set_lane j ?l s) @ br_pending (set_lane j ?l s)
          = concat (take (br_next (set_lane j ?l s)) inner)"
        using D(3) pend by simp
    next
      fix i assume "i < length inner" "br_next (set_lane j ?l s) \<le> i"
      then show "ln_values (br_lanes (set_lane j ?l s) ! i) = inner ! i"
        using D(5)[of i] nx by simp
    next
      fix i assume "i < length inner" "ln_closed (br_lanes (set_lane j ?l s) ! i)"
      then show "ln_values (br_lanes (set_lane j ?l s) ! i) = []"
        using D(6)[of i] h(1) by (cases "i = j") simp_all
    next
      fix i assume "i < br_drained (set_lane j ?l s)"
      then show "ln_values (br_lanes (set_lane j ?l s) ! i) = []
          \<and> ln_closed (br_lanes (set_lane j ?l s) ! i)
          \<and> ln_relay (br_lanes (set_lane j ?l s) ! i) = RelayReturned"
        using D(7)[of i] dr by simp
    qed (use D(1,2,4,8) in simp_all)
  next
    case (BR_Relay_send_done j)
    from br_Relay_send_doneD[OF step[unfolded BR_Relay_send_done]] D(1) show ?thesis by auto
  next
    case (BR_Relay_send j)
    from br_Relay_sendD[OF step[unfolded BR_Relay_send]] obtain val where
      h: "j < length (br_lanes s)" "br_pc s = BridgeRanging j"
      "ln_relay (br_lanes s ! j) = RelaySend val"
      "s' = (set_lane j ((br_lanes s ! j)\<lparr>ln_relay := RelaySelect\<rparr>) s)
                     \<lparr>br_pc := BridgeSend j val\<rparr>" by blast
    let ?l = "(br_lanes s ! j)\<lparr>ln_relay := RelaySelect\<rparr>"
    let ?s' = "(set_lane j ?l s)\<lparr>br_pc := BridgeSend j val\<rparr>"
    have nx: "Suc j = br_next s" using D(4)[of j] h(2) by simp
    have dr: "br_drained s = j" using h(2) by (simp add: br_drained_def)
    have dr': "br_drained ?s' = j" by (simp add: br_drained_def)
    have pend: "br_pending ?s' = br_pending s" using h(1,2,3) by (simp add: br_pending_def)
    show ?thesis unfolding h(4)
    proof (rule br_data_invI)
      show "br_collected ?s' @ br_pending ?s' = concat (take (br_next ?s') inner)"
        unfolding pend using D(3) by simp
    next
      fix i assume "i < length inner" "br_next ?s' \<le> i"
      then show "ln_values (br_lanes ?s' ! i) = inner ! i"
        using D(5)[of i] nx by simp
    next
      fix i assume "i < length inner" "ln_closed (br_lanes ?s' ! i)"
      then show "ln_values (br_lanes ?s' ! i) = []"
        using D(6)[of i] h(1) by (cases "i = j") simp_all
    next
      fix i assume "i < br_drained ?s'"
      then have "i < j" unfolding dr' .
      then show "ln_values (br_lanes ?s' ! i) = [] \<and> ln_closed (br_lanes ?s' ! i)
          \<and> ln_relay (br_lanes ?s' ! i) = RelayReturned"
        using D(7)[of i] dr by simp
    qed (use D(1,2) nx in simp_all)
  next
    case BR_Bridge_relay_closed
    from br_Bridge_relay_closedD[OF step[unfolded BR_Bridge_relay_closed]] obtain j where
      h: "br_pc s = BridgeRanging j" "j < length (br_lanes s)"
      "ln_relay (br_lanes s ! j) = RelayReturned" "s' = s\<lparr>br_pc := BridgeSelect\<rparr>" by blast
    let ?s' = "s\<lparr>br_pc := BridgeSelect\<rparr>"
    have nx: "Suc j = br_next s" using D(4)[of j] h(1) by simp
    have dr: "br_drained s = j" using h(1) by (simp add: br_drained_def)
    have cl: "ln_closed (br_lanes s ! j)" using C(7)[of j] D(1) h(2,3) by simp
    have em: "ln_values (br_lanes s ! j) = []" using D(6)[of j] cl h(2) D(2) by simp
    have col: "br_collected s = concat (take (br_next s) inner)"
      using D(3) h(1,3) em by (simp add: br_pending_def)
    show ?thesis unfolding h(4)
    proof (rule br_data_invI)
      show "br_collected ?s' @ br_pending ?s' = concat (take (br_next ?s') inner)"
        using col by (simp add: br_pending_def)
    next
      fix i assume "i < br_drained ?s'"
      then have "i < Suc j" using nx by (simp add: br_drained_def)
      then show "ln_values (br_lanes ?s' ! i) = [] \<and> ln_closed (br_lanes ?s' ! i)
          \<and> ln_relay (br_lanes ?s' ! i) = RelayReturned"
        using D(7)[of i] dr cl em h(3) by (cases "i = j") simp_all
    qed (use D(1,2,5,6) in simp_all)
  next
    case BR_Bridge_send_done
    from br_Bridge_send_doneD[OF step[unfolded BR_Bridge_send_done]] D(1) show ?thesis by auto
  next
    case BR_Bridge_send
    from br_Bridge_sendD[OF step[unfolded BR_Bridge_send]] obtain j val where
      h: "br_pc s = BridgeSend j val" "\<not> br_finished s"
      "s' = s\<lparr>br_pc := BridgeRanging j, br_collected := br_collected s @ [val]\<rparr>" by blast
    let ?s' = "s\<lparr>br_pc := BridgeRanging j, br_collected := br_collected s @ [val]\<rparr>"
    have nx: "Suc j = br_next s" using D(4)[of j] h(1) by simp
    have dr: "br_drained s = j" using h(1) by (simp add: br_drained_def)
    show ?thesis unfolding h(3)
    proof (rule br_data_invI)
      show "br_collected ?s' @ br_pending ?s' = concat (take (br_next ?s') inner)"
        using D(3) h(1) by (simp add: br_pending_def)
    next
      fix i assume "i < br_drained ?s'"
      then have "i < j" by (simp add: br_drained_def)
      then show "ln_values (br_lanes ?s' ! i) = [] \<and> ln_closed (br_lanes ?s' ! i)
          \<and> ln_relay (br_lanes ?s' ! i) = RelayReturned"
        using D(7)[of i] dr by simp
    qed (use D(1,2,5,6) nx in simp_all)
  next
    case BR_Consumer_end
    from br_Consumer_endD[OF step[unfolded BR_Consumer_end]] have
      h: "br_pc s = BridgeReturned" "s' = s\<lparr>br_finished := True\<rparr>" by blast+
    show ?thesis unfolding h(2)
    proof (rule br_data_invI)
      fix i assume "i < br_drained (s\<lparr>br_finished := True\<rparr>)"
      then show "ln_values (br_lanes (s\<lparr>br_finished := True\<rparr>) ! i) = []
          \<and> ln_closed (br_lanes (s\<lparr>br_finished := True\<rparr>) ! i)
          \<and> ln_relay (br_lanes (s\<lparr>br_finished := True\<rparr>) ! i) = RelayReturned"
        using D(7)[of i] by simp
    qed (use D(1,2,3,4,5,6,8) in simp_all)
  qed
qed


lemma br_ctl_inv_init: "br_ctl_inv (br_init inner)"
  by (simp add: br_ctl_inv_def br_init_def new_lane_def)

lemma br_data_inv_init: "br_data_inv inner (br_init inner)"
  by (simp add: br_data_inv_def br_init_def new_lane_def br_pending_def br_drained_def)

lemma lane_left_new: "sum_list (map (lane_left \<circ> new_lane) inner) = 3 * length (concat inner) + length inner"
  by (induction inner) (simp_all add: lane_left_def new_lane_def)

lemma br_measure_init:
  "br_measure (br_init inner) = 3 * length (concat inner) + 4 * length inner + 4"
  by (simp add: br_measure_def br_init_def lane_left_new)

lemma br_ctl_inv_run:
  assumes "run br_step sched (br_init inner) = Some s"
  shows "br_ctl_inv s"
  using assms br_ctl_inv_init by (rule run_invariant) (rule br_ctl_inv_step)

lemma br_data_inv_run:
  assumes "BR_Cancel \<notin> set sched" and "run br_step sched (br_init inner) = Some s"
  shows "br_data_inv inner s"
proof -
  have "br_ctl_inv s \<and> br_data_inv inner s"
    using assms(2)
  proof (rule run_invariant)
    show "br_ctl_inv (br_init inner) \<and> br_data_inv inner (br_init inner)"
      by (intro conjI br_ctl_inv_init br_data_inv_init)
  next
    fix a t t'
    assume a: "a \<in> set sched" and i: "br_ctl_inv t \<and> br_data_inv inner t"
      and st: "br_step a t = Some t'"
    have nc: "a \<noteq> BR_Cancel" using a assms(1) by auto
    show "br_ctl_inv t' \<and> br_data_inv inner t'"
      using br_ctl_inv_step[OF _ st] br_data_inv_step[OF _ _ nc st, of inner] i by simp
  qed
  then show ?thesis by simp
qed

lemma br_quiet_stuck: "br_quiet s \<longleftrightarrow> br_stuck s"
proof
  assume q: "br_quiet s"
  have m: "\<And>a. a \<in> set (br_choices s) \<Longrightarrow> br_step a s = None"
    using q by (simp add: br_quiet_def list_all_iff)
  have idx: "\<And>a j. j < length (br_lanes s) \<Longrightarrow>
      a \<in> {BR_Inner_done j, BR_Inner_return j, BR_Relay_done j, BR_Relay_recv j,
           BR_Relay_closed j, BR_Relay_send_done j, BR_Relay_send j} \<Longrightarrow> a \<in> set (br_choices s)"
    by (auto simp: br_choices_def)
  show "br_stuck s" unfolding br_stuck_def
  proof (intro allI impI)
    fix a :: br_action assume nc: "a \<noteq> BR_Cancel"
    show "br_step a s = None"
    proof (cases a)
      case BR_Cancel
      then show ?thesis using nc by simp
    next
      case (BR_Inner_done j)
      show ?thesis
      proof (cases "j < length (br_lanes s)")
        case True
        then have "a \<in> set (br_choices s)" using BR_Inner_done by (intro idx[of j]) simp_all
        then show ?thesis by (rule m)
      next
        case False
        then show ?thesis using BR_Inner_done by simp
      qed
    next
      case (BR_Inner_return j)
      show ?thesis
      proof (cases "j < length (br_lanes s)")
        case True
        then have "a \<in> set (br_choices s)" using BR_Inner_return by (intro idx[of j]) simp_all
        then show ?thesis by (rule m)
      next
        case False
        then show ?thesis using BR_Inner_return by simp
      qed
    next
      case (BR_Relay_done j)
      show ?thesis
      proof (cases "j < length (br_lanes s)")
        case True
        then have "a \<in> set (br_choices s)" using BR_Relay_done by (intro idx[of j]) simp_all
        then show ?thesis by (rule m)
      next
        case False
        then show ?thesis using BR_Relay_done by simp
      qed
    next
      case (BR_Relay_recv j)
      show ?thesis
      proof (cases "j < length (br_lanes s)")
        case True
        then have "a \<in> set (br_choices s)" using BR_Relay_recv by (intro idx[of j]) simp_all
        then show ?thesis by (rule m)
      next
        case False
        then show ?thesis using BR_Relay_recv by simp
      qed
    next
      case (BR_Relay_closed j)
      show ?thesis
      proof (cases "j < length (br_lanes s)")
        case True
        then have "a \<in> set (br_choices s)" using BR_Relay_closed by (intro idx[of j]) simp_all
        then show ?thesis by (rule m)
      next
        case False
        then show ?thesis using BR_Relay_closed by simp
      qed
    next
      case (BR_Relay_send_done j)
      show ?thesis
      proof (cases "j < length (br_lanes s)")
        case True
        then have "a \<in> set (br_choices s)" using BR_Relay_send_done by (intro idx[of j]) simp_all
        then show ?thesis by (rule m)
      next
        case False
        then show ?thesis using BR_Relay_send_done by simp
      qed
    next
      case (BR_Relay_send j)
      show ?thesis
      proof (cases "j < length (br_lanes s)")
        case True
        then have "a \<in> set (br_choices s)" using BR_Relay_send by (intro idx[of j]) simp_all
        then show ?thesis by (rule m)
      next
        case False
        then show ?thesis using BR_Relay_send by simp
      qed
    qed (rule m, simp add: br_choices_def)+
  qed
next
  assume "br_stuck s"
  then have "\<And>a. a \<noteq> BR_Cancel \<Longrightarrow> br_step a s = None" by (auto simp: br_stuck_def)
  moreover have "BR_Cancel \<notin> set (br_choices s)" by (auto simp: br_choices_def)
  ultimately show "br_quiet s" unfolding br_quiet_def list_all_iff by metis
qed

lemma br_stuck_iff: "br_stuck s \<longleftrightarrow> (\<forall>a \<in> - {BR_Cancel}. br_step a s = None)"
  by (auto simp: br_stuck_def)

text \<open>
  Cancelled or not, \<^verbatim>\<open>Bridge\<close> can always move or make the goroutine it waits for move,
  until it has returned.
\<close>

lemma br_stuck_bridge_returned:
  assumes ctl: "br_ctl_inv s" and st: "br_stuck s"
  shows "br_pc s = BridgeReturned"
proof -
  note C = br_ctl_invD[OF ctl]
  have none: "\<And>a. a \<noteq> BR_Cancel \<Longrightarrow> br_step a s = None" using st by (auto simp: br_stuck_def)
  show ?thesis
  proof (cases "br_pc s")
    case BridgeSelect
    from none[of BR_Bridge_outer_closed] none[of BR_Outer_send] none[of BR_Outer_return]
      BridgeSelect have False by (simp split: if_splits)
    then show ?thesis ..
  next
    case (BridgeRanging j)
    have j: "j < length (br_lanes s)" using C(4)[of j] C(1) BridgeRanging by simp
    have nu: "ln_relay (br_lanes s ! j) \<noteq> RelayUnstarted"
      using C(5)[OF j] C(4)[of j] BridgeRanging by simp
    have False
    proof (cases "ln_relay (br_lanes s ! j)")
      case RelayUnstarted
      then show ?thesis using nu by simp
    next
      case RelaySelect
      from none[of "BR_Relay_closed j"] none[of "BR_Inner_return j"] none[of "BR_Relay_recv j"]
        RelaySelect j show ?thesis by (simp split: if_splits list.splits)
    next
      case (RelaySend val)
      from none[of "BR_Relay_send j"] RelaySend j BridgeRanging show ?thesis by simp
    next
      case RelayReturned
      from none[of BR_Bridge_relay_closed] RelayReturned j BridgeRanging show ?thesis by simp
    qed
    then show ?thesis ..
  next
    case (BridgeSend j val)
    from none[of BR_Bridge_send] BridgeSend have "br_finished s" by (simp split: if_splits)
    then show ?thesis by (rule C(2))
  next
    case BridgeReturned
    then show ?thesis .
  qed
qed

lemma br_returned_complete:
  assumes ctl: "br_ctl_inv s" and dat: "br_data_inv inner s" and ret: "br_pc s = BridgeReturned"
  shows "br_outer_closed s"
    and "\<And>l. l \<in> set (br_lanes s) \<Longrightarrow> ln_closed l \<and> ln_relay l = RelayReturned"
    and "br_collected s = concat inner"
proof -
  note C = br_ctl_invD[OF ctl]
  note D = br_data_invD[OF dat]
  show oc: "br_outer_closed s" using D(8) ret .
  have nx: "br_next s = length (br_lanes s)" using C(8) D(1) oc .
  have dr: "br_drained s = length (br_lanes s)" using ret nx by (simp add: br_drained_def)
  show "ln_closed l \<and> ln_relay l = RelayReturned" if "l \<in> set (br_lanes s)" for l
  proof -
    from that obtain j where "j < length (br_lanes s)" "l = br_lanes s ! j"
      by (auto simp: in_set_conv_nth)
    then show ?thesis using D(7)[of j] dr by simp
  qed
  show "br_collected s = concat inner"
    using D(3) D(2) nx ret by (simp add: br_pending_def)
qed

lemma br_stuck_returned:
  assumes ctl: "br_ctl_inv s" and st: "br_stuck s"
  shows "br_all_returned s"
proof -
  note C = br_ctl_invD[OF ctl]
  have none: "\<And>a. a \<noteq> BR_Cancel \<Longrightarrow> br_step a s = None" using st by (auto simp: br_stuck_def)
  have ret: "br_pc s = BridgeReturned" using ctl st by (rule br_stuck_bridge_returned)
  from none[of BR_Consumer_end] have fin: "br_finished s" using ret by (simp split: if_splits)
  have oc: "br_outer_closed s"
  proof (cases "br_done s")
    case True
    from none[of BR_Outer_done] none[of BR_Outer_return] True show ?thesis
      by (cases "br_next s < length (br_lanes s)") (simp_all split: if_splits)
  next
    case False
    then show ?thesis using C(3) ret by simp
  qed
  have lanes: "ln_closed (br_lanes s ! j) \<and> \<not> relay_active (ln_relay (br_lanes s ! j))"
    if j: "j < length (br_lanes s)" for j
  proof (cases "br_done s")
    case True
    from none[of "BR_Inner_done j"] none[of "BR_Inner_return j"] True j
    have cl: "ln_closed (br_lanes s ! j)"
      by (cases "ln_values (br_lanes s ! j) = []") (simp_all split: if_splits)
    have "\<not> relay_active (ln_relay (br_lanes s ! j))"
    proof (cases "ln_relay (br_lanes s ! j)")
      case RelaySelect
      from none[of "BR_Relay_done j"] RelaySelect True j show ?thesis by simp
    next
      case (RelaySend val)
      from none[of "BR_Relay_send_done j"] RelaySend True j show ?thesis by simp
    qed simp_all
    then show ?thesis using cl by simp
  next
    case False
    have na: "\<not> relay_active (ln_relay (br_lanes s ! j))"
      using C(6)[OF False j] ret by auto
    have "br_next s = length (br_lanes s)" using C(8) False oc .
    then have "ln_relay (br_lanes s ! j) \<noteq> RelayUnstarted" using C(5)[OF j] j by simp
    then have "ln_relay (br_lanes s ! j) = RelayReturned"
      using na by (cases "ln_relay (br_lanes s ! j)") simp_all
    then have "ln_closed (br_lanes s ! j)" using C(7)[OF False j] by simp
    then show ?thesis using na by simp
  qed
  have "ln_closed l \<and> \<not> relay_active (ln_relay l)" if "l \<in> set (br_lanes s)" for l
  proof -
    from that obtain j where "j < length (br_lanes s)" "l = br_lanes s ! j"
      by (auto simp: in_set_conv_nth)
    then show ?thesis using lanes by simp
  qed
  then show ?thesis using oc ret fin by (simp add: br_all_returned_def)
qed

lemma br_collected_prefix:
  assumes "br_data_inv inner s"
  shows "take (length (br_collected s)) (concat inner) = br_collected s"
proof -
  note D = br_data_invD[OF assms]
  have "concat inner = concat (take (br_next s) inner @ drop (br_next s) inner)" by simp
  also have "\<dots> = br_collected s @ (br_pending s @ concat (drop (br_next s) inner))"
    using D(3) by (simp only: concat_append append_assoc[symmetric])
  finally show ?thesis by simp
qed

lemma br_depth_first:
  assumes "br_data_inv inner s" and "Suc j < br_next s"
  shows "ln_values (br_lanes s ! j) = [] \<and> ln_closed (br_lanes s ! j)
     \<and> ln_relay (br_lanes s ! j) = RelayReturned"
proof -
  note D = br_data_invD[OF assms(1)]
  have "j < br_drained s"
    using D(4) assms(2) by (cases "bridge_lane (br_pc s)") (auto simp: br_drained_def)
  then show ?thesis by (rule D(7))
qed

text \<open>
  Claim C5. For every list of inner value lists (an outer generator that sends the
  channels of the inner generators in order and closes its channel, each inner generator
  sending its values and closing its channel), under every schedule in which the context
  is not cancelled: what the consumer of \<^verbatim>\<open>Bridge\<close>'s output has collected is at every moment a
  prefix of the concatenation of the inner lists in outer order; together with what is
  still pending in the lane being drained it is the concatenation of the inner lists
  handed over so far; every lane handed over before the last one is exhausted, closed and
  its relay has returned (each inner source is fully drained before the next is taken),
  and no value of a lane not handed over yet has moved; when the consumer's loop has
  ended, the collected values are exactly the concatenation; the only states in which no
  goroutine can move are those where everything has returned; every such schedule has at
  most \<open>3 * M + 4 * n + 3\<close> steps for \<open>n\<close> inner lists of \<open>M\<close> values in total, and can be
  continued to that end.
\<close>

theorem C5_bridge_flattens:
  assumes "BR_Cancel \<notin> set sched" and "run br_step sched (br_init inner) = Some s"
  shows "take (length (br_collected s)) (concat inner) = br_collected s
     \<and> br_collected s @ br_pending s = concat (take (br_next s) inner)
     \<and> (\<forall>j. Suc j < br_next s \<longrightarrow>
            ln_values (br_lanes s ! j) = [] \<and> ln_closed (br_lanes s ! j)
            \<and> ln_relay (br_lanes s ! j) = RelayReturned)
     \<and> (\<forall>j < length inner. br_next s \<le> j \<longrightarrow>
            ln_values (br_lanes s ! j) = inner ! j \<and> ln_relay (br_lanes s ! j) = RelayUnstarted)
     \<and> (br_finished s \<longrightarrow> br_collected s = concat inner)
     \<and> (br_quiet s \<longrightarrow> br_all_returned s \<and> br_collected s = concat inner)
     \<and> length sched \<le> 3 * length (concat inner) + 4 * length inner + 3
     \<and> (\<exists>sched' s'. BR_Cancel \<notin> set sched'
            \<and> run br_step (sched @ sched') (br_init inner) = Some s'
            \<and> br_all_returned s' \<and> br_collected s' = concat inner)"
proof -
  have ctl: "br_ctl_inv s" using assms(2) by (rule br_ctl_inv_run)
  have dat: "br_data_inv inner s" using assms by (rule br_data_inv_run)
  note C = br_ctl_invD[OF ctl]
  note D = br_data_invD[OF dat]
  have pre: "take (length (br_collected s)) (concat inner) = br_collected s"
    using dat by (rule br_collected_prefix)
  have df: "\<forall>j. Suc j < br_next s \<longrightarrow>
            ln_values (br_lanes s ! j) = [] \<and> ln_closed (br_lanes s ! j)
            \<and> ln_relay (br_lanes s ! j) = RelayReturned"
    using br_depth_first[OF dat] by blast
  have un: "\<forall>j < length inner. br_next s \<le> j \<longrightarrow>
            ln_values (br_lanes s ! j) = inner ! j \<and> ln_relay (br_lanes s ! j) = RelayUnstarted"
    using D(5) C(5) D(2) by simp
  have fin: "br_collected s = concat inner" if "br_finished s"
    using br_returned_complete(3)[OF ctl dat C(2)[OF that]] .
  have qu: "br_all_returned s \<and> br_collected s = concat inner" if "br_quiet s"
  proof -
    have r: "br_all_returned s" using ctl that[unfolded br_quiet_stuck] by (rule br_stuck_returned)
    then have "br_finished s" by (simp add: br_all_returned_def)
    then show ?thesis using r fin by simp
  qed
  have "length sched + br_measure s \<le> br_measure (br_init inner)"
    using assms(2) by (rule run_measure) (rule br_measure_step)
  moreover have "1 \<le> br_measure s" using D(1) by (simp add: br_measure_def)
  ultimately have len: "length sched \<le> 3 * length (concat inner) + 4 * length inner + 3"
    by (simp add: br_measure_init)
  have "\<exists>sched' s'. set sched' \<subseteq> - {BR_Cancel} \<and> run br_step sched' s = Some s'
      \<and> (\<forall>a \<in> - {BR_Cancel}. br_step a s' = None)"
    by (rule run_complete) (rule br_measure_step)
  then obtain sched' s' where e: "set sched' \<subseteq> - {BR_Cancel}"
      "run br_step sched' s = Some s'" "br_stuck s'"
    unfolding br_stuck_iff by blast
  have r': "run br_step (sched @ sched') (br_init inner) = Some s'"
    using assms(2) e(2) by (simp add: run_append)
  have nc: "BR_Cancel \<notin> set (sched @ sched')" using assms(1) e(1) by auto
  have ctl': "br_ctl_inv s'" using r' by (rule br_ctl_inv_run)
  have dat': "br_data_inv inner s'" using nc r' by (rule br_data_inv_run)
  have ret': "br_all_returned s'" using ctl' e(3) by (rule br_stuck_returned)
  then have "br_pc s' = BridgeReturned" by (simp add: br_all_returned_def)
  then have "br_collected s' = concat inner" by (rule br_returned_complete(3)[OF ctl' dat'])
  then have ex: "\<exists>sched' s'. BR_Cancel \<notin> set sched'
            \<and> run br_step (sched @ sched') (br_init inner) = Some s'
            \<and> br_all_returned s' \<and> br_collected s' = concat inner"
    using e(1) r' ret' by blast
  show ?thesis using pre D(3) df un fin qu len ex by blast
qed


text \<open>
  The inner lists \<open>[1]\<close>, \<open>[]\<close> and \<open>[2, 3]\<close>: a schedule of \<open>3 * 3 + 4 * 3 + 3 = 24\<close> steps, after
  which the consumer has collected \<open>[1, 2, 3]\<close> and everything has returned.
\<close>

theorem C5_bridge_flattens_witness:
  "BR_Cancel \<notin> set
      [BR_Outer_send, BR_Relay_recv 0, BR_Relay_send 0, BR_Bridge_send, BR_Inner_return 0,
       BR_Relay_closed 0, BR_Bridge_relay_closed, BR_Inner_return 1, BR_Outer_send,
       BR_Relay_closed 1, BR_Bridge_relay_closed, BR_Outer_send, BR_Outer_return,
       BR_Relay_recv 2, BR_Relay_send 2, BR_Relay_recv 2, BR_Bridge_send, BR_Relay_send 2,
       BR_Bridge_send, BR_Inner_return 2, BR_Relay_closed 2, BR_Bridge_relay_closed,
       BR_Bridge_outer_closed, BR_Consumer_end]
   \<and> run br_step
      [BR_Outer_send, BR_Relay_recv 0, BR_Relay_send 0, BR_Bridge_send, BR_Inner_return 0,
       BR_Relay_closed 0, BR_Bridge_relay_closed, BR_Inner_return 1, BR_Outer_send,
       BR_Relay_closed 1, BR_Bridge_relay_closed, BR_Outer_send, BR_Outer_return,
       BR_Relay_recv 2, BR_Relay_send 2, BR_Relay_recv 2, BR_Bridge_send, BR_Relay_send 2,
       BR_Bridge_send, BR_Inner_return 2, BR_Relay_closed 2, BR_Bridge_relay_closed,
       BR_Bridge_outer_closed, BR_Consumer_end]
      (br_init [[1], [], [2, 3 :: go_int]])
     = Some
     \<lparr>br_done = False,
       br_lanes = [\<lparr>ln_values = [], ln_closed = True, ln_relay = RelayReturned\<rparr>,
                   \<lparr>ln_values = [], ln_closed = True, ln_relay = RelayReturned\<rparr>,
                   \<lparr>ln_values = [], ln_closed = True, ln_relay = RelayReturned\<rparr>],
       br_next = 3, br_outer_closed = True, br_pc = BridgeReturned,
       br_collected = [1, 2, 3 :: go_int], br_finished = True\<rparr>
   \<and> br_quiet
     \<lparr>br_done = False,
       br_lanes = [\<lparr>ln_values = [], ln_closed = True, ln_relay = RelayReturned\<rparr>,
                   \<lparr>ln_values = [], ln_closed = True, ln_relay = RelayReturned\<rparr>,
                   \<lparr>ln_values = [], ln_closed = True, ln_relay = RelayReturned\<rparr>],
       br_next = 3, br_outer_closed = True, br_pc = BridgeReturned,
       br_collected = [1, 2, 3 :: go_int], br_finished = True\<rparr>
   \<and> br_all_returned
     \<lparr>br_done = False,
       br_lanes = [\<lparr>ln_values = [], ln_closed = True, ln_relay = RelayReturned\<rparr>,
                   \<lparr>ln_values = [], ln_closed = True, ln_relay = RelayReturned\<rparr>,
                   \<lparr>ln_values = [], ln_closed = True, ln_relay = RelayReturned\<rparr>],
       br_next = 3, br_outer_closed = True, br_pc = BridgeReturned,
       br_collected = [1, 2, 3 :: go_int], br_finished = True\<rparr>
   \<and> [1, 2, 3 :: go_int] = concat [[1], [], [2, 3]]
   \<and> length
      [BR_Outer_send, BR_Relay_recv 0, BR_Relay_send 0, BR_Bridge_send, BR_Inner_return 0,
       BR_Relay_closed 0, BR_Bridge_relay_closed, BR_Inner_return 1, BR_Outer_send,
       BR_Relay_closed 1, BR_Bridge_relay_closed, BR_Outer_send, BR_Outer_return,
       BR_Relay_recv 2, BR_Relay_send 2, BR_Relay_recv 2, BR_Bridge_send, BR_Relay_send 2,
       BR_Bridge_send, BR_Inner_return 2, BR_Relay_closed 2, BR_Bridge_relay_closed,
       BR_Bridge_outer_closed, BR_Consumer_end]
     = 3 * length (concat [[1], [], [2, 3 :: go_int]]) + 4 * length [[1], [], [2, 3 :: go_int]] + 3"
proof -
  let ?inner = "[[1], [], [2, 3 :: go_int]]"
  let ?s = "\<lparr>br_done = False,
       br_lanes = [\<lparr>ln_values = [], ln_closed = True, ln_relay = RelayReturned\<rparr>,
                   \<lparr>ln_values = [], ln_closed = True, ln_relay = RelayReturned\<rparr>,
                   \<lparr>ln_values = [], ln_closed = True, ln_relay = RelayReturned\<rparr>],
       br_next = 3, br_outer_closed = True, br_pc = BridgeReturned,
       br_collected = [1, 2, 3 :: go_int], br_finished = True\<rparr>"
  let ?sched = "[BR_Outer_send, BR_Relay_recv 0, BR_Relay_send 0, BR_Bridge_send, BR_Inner_return 0,
       BR_Relay_closed 0, BR_Bridge_relay_closed, BR_Inner_return 1, BR_Outer_send,
       BR_Relay_closed 1, BR_Bridge_relay_closed, BR_Outer_send, BR_Outer_return,
       BR_Relay_recv 2, BR_Relay_send 2, BR_Relay_recv 2, BR_Bridge_send, BR_Relay_send 2,
       BR_Bridge_send, BR_Inner_return 2, BR_Relay_closed 2, BR_Bridge_relay_closed,
       BR_Bridge_outer_closed, BR_Consumer_end]"
  have nc: "BR_Cancel \<notin> set ?sched" by simp
  have r: "run br_step ?sched (br_init ?inner) = Some ?s"
    by (simp add: br_init_def new_lane_def set_lane_def)
  have q: "br_quiet ?s"
    by (simp add: br_quiet_def br_choices_def upt_rec numeral_3_eq_3)
  from C5_bridge_flattens[OF nc r] q have "br_all_returned ?s \<and> br_collected ?s = concat ?inner"
    by blast
  then show ?thesis using nc r q by simp
qed

section \<open>Cancellation: which blocking operations it reaches\<close>









end
